theory Spec2Isabelle
  imports Main
begin

section \<open>The entry point \<^verbatim>\<open>server.py\<close>\<close>

subsection \<open>Exceptions, log records and events\<close>

text \<open>
  Exceptions are values. Every constructor below stands for a subclass of Python's
  \<^verbatim>\<open>Exception\<close> and carries the message \<^verbatim>\<open>str(e)\<close>. \<^verbatim>\<open>SystemExit\<close>, which
  \<^verbatim>\<open>sys.exit\<close> raises, is not a subclass of \<^verbatim>\<open>Exception\<close>; it is a separate outcome.
\<close>

datatype py_error =
    AttributeError string
  | ValueError string
  | IndexError string
  | OtherException string

fun str_of :: "py_error \<Rightarrow> string" where
  "str_of (AttributeError m) = m"
| "str_of (ValueError m) = m"
| "str_of (IndexError m) = m"
| "str_of (OtherException m) = m"

datatype log_level = DEBUG | INFO | ERROR

text \<open>
  The coroutines the entry point hands to the event loop. \<open>Build_docs\<close> and \<open>Start_server\<close>
  are defined in \<^verbatim>\<open>server.py\<close>; the others are methods of the services and of aiohttp and
  are opaque here.
\<close>

datatype coro =
    Build_docs | Create_subprocess_exec | Communicate
  | Restore_state | Enable | Register_contacts | Load_plugins | Load_data
  | Start_sniffer_untrusted_agents | Resume_operations | Run_scheduler | Build_model
  | Start_server | Auth_apply | Runner_setup | Site_start
  | Teardown | Destroy

datatype event =
    Log log_level string
  | Begin coro
  | End coro
  | Raised coro
  | Add_static

subsection \<open>The regular expressions of \<^verbatim>\<open>validate_environment\<close>\<close>

text \<open>
  The two patterns are \<^verbatim>\<open>([0-9\.]+)\<close> and \<^verbatim>\<open>go([0-9\.]+)\<close>. \<^verbatim>\<open>re.search\<close> returns the
  leftmost match, and \<^verbatim>\<open>+\<close> is greedy, so group 1 is the longest run of digits and dots
  that starts at the leftmost place where the pattern can match.
\<close>

datatype pattern = Pat_version | Pat_go_version

definition isdigit :: "char \<Rightarrow> bool" where
  "isdigit c = (c \<in> set ''0123456789'')"

definition verchar :: "char \<Rightarrow> bool" where
  "verchar c = (isdigit c \<or> c = CHR ''.'')"

definition search_version :: "string \<Rightarrow> string option" where
  "search_version output =
     (case takeWhile verchar (dropWhile (\<lambda>c. \<not> verchar c) output) of
        [] \<Rightarrow> None
      | v \<Rightarrow> Some v)"

fun search_go_version :: "string \<Rightarrow> string option" where
  "search_go_version [] = None"
| "search_go_version (c # cs) =
     (if c = CHR ''g'' \<and> (case cs of [] \<Rightarrow> False
                          | d # rest \<Rightarrow> d = CHR ''o'' \<and> takeWhile verchar rest \<noteq> [])
      then Some (takeWhile verchar (tl cs))
      else search_go_version cs)"

fun re_search_group1 :: "pattern \<Rightarrow> string \<Rightarrow> string option" where
  "re_search_group1 Pat_version output = search_version output"
| "re_search_group1 Pat_go_version output = search_go_version output"

subsection \<open>\<^verbatim>\<open>distutils.version.StrictVersion\<close>\<close>

text \<open>
  The standard library's class, written out: the version string must match
  \<^verbatim>\<open>^(\d+) \. (\d+) (\. (\d+))? ([ab](\d+))?$\<close> (verbose, ASCII), else \<^verbatim>\<open>ValueError\<close>;
  a missing patch number is 0. \<^verbatim>\<open>$\<close> also matches before a final newline.
\<close>

record strict_version =
  version :: "nat \<times> nat \<times> nat"
  prerelease :: "(char \<times> nat) option"

definition digit_value :: "char \<Rightarrow> nat" where
  "digit_value c = of_char c - 48"

definition int_of_digits :: "string \<Rightarrow> nat" where
  "int_of_digits ds = foldl (\<lambda>n c. 10 * n + digit_value c) 0 ds"

definition at_end :: "string \<Rightarrow> bool" where
  "at_end s = (s = [] \<or> s = [CHR 0x0A])"

definition parse_prerelease :: "string \<Rightarrow> (char \<times> nat) option \<times> string" where
  "parse_prerelease s =
     (case s of
        [] \<Rightarrow> (None, s)
      | c # r \<Rightarrow>
          if (c = CHR ''a'' \<or> c = CHR ''b'') \<and> takeWhile isdigit r \<noteq> []
          then (Some (c, int_of_digits (takeWhile isdigit r)), dropWhile isdigit r)
          else (None, s))"

definition parse_patch :: "string \<Rightarrow> nat option \<times> string" where
  "parse_patch s =
     (case s of
        [] \<Rightarrow> (None, s)
      | c # r \<Rightarrow>
          if c = CHR ''.'' \<and> takeWhile isdigit r \<noteq> []
          then (Some (int_of_digits (takeWhile isdigit r)), dropWhile isdigit r)
          else (None, s))"

definition StrictVersion :: "string \<Rightarrow> py_error + strict_version" where
  "StrictVersion vstring =
     (let invalid = Inl (ValueError (''invalid version number '' @ [CHR 0x27] @ vstring @ [CHR 0x27]));
          major = takeWhile isdigit vstring;
          r1 = dropWhile isdigit vstring
      in if major = [] then invalid
         else case r1 of
           [] \<Rightarrow> invalid
         | c # r2 \<Rightarrow>
             if c \<noteq> CHR ''.'' \<or> takeWhile isdigit r2 = [] then invalid
             else
               let minor = takeWhile isdigit r2;
                   (patch, r3) = parse_patch (dropWhile isdigit r2);
                   (pre, r4) = parse_prerelease r3
               in if at_end r4
                  then Inr \<lparr>version = (int_of_digits major, int_of_digits minor,
                                        (case patch of None \<Rightarrow> 0 | Some p \<Rightarrow> p)),
                            prerelease = pre\<rparr>
                  else invalid)"

definition tuple3_less :: "nat \<times> nat \<times> nat \<Rightarrow> nat \<times> nat \<times> nat \<Rightarrow> bool" where
  "tuple3_less a b =
     (case (a, b) of
        ((a1, a2, a3), (b1, b2, b3)) \<Rightarrow>
          a1 < b1 \<or> (a1 = b1 \<and> (a2 < b2 \<or> (a2 = b2 \<and> a3 < b3))))"

definition pre_less :: "char \<times> nat \<Rightarrow> char \<times> nat \<Rightarrow> bool" where
  "pre_less p q =
     ((of_char (fst p) :: nat) < of_char (fst q) \<or> (fst p = fst q \<and> snd p < snd q))"

definition cmp :: "strict_version \<Rightarrow> strict_version \<Rightarrow> int" where
  "cmp self other =
     (if version self \<noteq> version other then
        (if tuple3_less (version self) (version other) then - 1 else 1)
      else
        (case (prerelease self, prerelease other) of
           (None, None) \<Rightarrow> 0
         | (Some p, None) \<Rightarrow> - 1
         | (None, Some q) \<Rightarrow> 1
         | (Some p, Some q) \<Rightarrow> (if p = q then 0 else if pre_less p q then - 1 else 1)))"

definition version_le :: "strict_version \<Rightarrow> strict_version \<Rightarrow> bool" where
  "version_le self other = (cmp self other \<le> 0)"

subsection \<open>\<^verbatim>\<open>validate_environment\<close>\<close>

text \<open>
  \<^verbatim>\<open>subprocess.getstatusoutput\<close> is the environment: a function from the command line to
  the exit status and the output, or to an exception (the output may fail to decode).
  The dictionary \<^verbatim>\<open>versions\<close> is iterated in insertion order.
\<close>

type_synonym probe = "string \<Rightarrow> py_error + (int \<times> string)"

type_synonym version_entry = "string \<times> string \<times> pattern \<times> string"

definition python_entry :: version_entry where
  "python_entry = (''python'', ''python --version'', Pat_version, ''3.6.1'')"

definition go_entry :: version_entry where
  "go_entry = (''go'', ''go version'', Pat_go_version, ''1.11'')"

definition versions :: "version_entry list" where
  "versions = [python_entry, go_entry]"

datatype 'a outcome = Return 'a | SysExit int | Raise py_error

definition check_version :: "probe \<Rightarrow> version_entry \<Rightarrow> event list \<times> unit outcome" where
  "check_version getstatusoutput entry =
     (case entry of (exe, cmd, pat, min_version) \<Rightarrow>
        (case getstatusoutput cmd of
           Inl e \<Rightarrow> ([], Raise e)
         | Inr (failed, output) \<Rightarrow>
             if failed = 0 then
               (case re_search_group1 pat output of
                  None \<Rightarrow> ([], Raise (AttributeError
                     ([CHR 0x27] @ ''NoneType'' @ [CHR 0x27] @ '' object has no attribute ''
                        @ [CHR 0x27] @ ''group'' @ [CHR 0x27])))
                | Some v \<Rightarrow>
                    (case StrictVersion v of
                       Inl e \<Rightarrow> ([], Raise e)
                     | Inr installed \<Rightarrow>
                         (case StrictVersion min_version of
                            Inl e \<Rightarrow> ([], Raise e)
                          | Inr minimum \<Rightarrow>
                              if version_le installed minimum then
                                ([Log ERROR (''installed '' @ exe @ '' version '' @ v
                                     @ '' is below the required minimum version '' @ min_version),
                                  Log ERROR ''Environment is not properly configured for running Caldera, Exiting''],
                                 SysExit 1)
                              else ([], Return ()))))
             else ([], Return ())))"

fun check_versions :: "probe \<Rightarrow> version_entry list \<Rightarrow> event list \<times> unit outcome" where
  "check_versions getstatusoutput [] = ([], Return ())"
| "check_versions getstatusoutput (entry # rest) =
     (case check_version getstatusoutput entry of
        (logs, Return u) \<Rightarrow>
          (case check_versions getstatusoutput rest of (logs', r) \<Rightarrow> (logs @ logs', r))
      | (logs, r) \<Rightarrow> (logs, r))"

definition validate_environment :: "probe \<Rightarrow> event list \<times> bool outcome" where
  "validate_environment getstatusoutput =
     (case check_versions getstatusoutput versions of
        (logs, Raise e) \<Rightarrow> (logs @ [Log DEBUG (str_of e)], Return False)
      | (logs, SysExit n) \<Rightarrow> (logs, SysExit n)
      | (logs, Return u) \<Rightarrow> (logs, Return True))"

subsection \<open>The event loop\<close>

text \<open>
  What \<^verbatim>\<open>server.py\<close> uses of asyncio, written out. A coroutine is the list of its steps:
  it emits events, suspends (\<open>Yield\<close>: control goes back to the loop), raises (\<open>Throw\<close>) or
  waits for ever (\<open>Hang\<close>). How long a service coroutine takes, and whether it returns,
  raises or never finishes, is the environment's choice.

  The loop keeps its ready tasks in a queue. \<^verbatim>\<open>create_task\<close> appends a task without
  running it. One iteration of the loop gives every ready task one turn, in queue order.
  \<^verbatim>\<open>run_until_complete\<close> appends its coroutine behind the tasks already there and
  iterates until that coroutine is done; the exception of the coroutine it waits for is
  raised in the caller, the exception of any other task stays in that task.
\<close>

datatype behaviour = Finishes nat | Fails nat | Forever

type_synonym services = "coro \<Rightarrow> behaviour"

datatype micro = Emit event | Yield | Throw | Hang

definition opaque :: "services \<Rightarrow> coro \<Rightarrow> micro list" where
  "opaque sv c =
     Emit (Begin c) #
       (case sv c of
          Finishes n \<Rightarrow> replicate n Yield @ [Emit (End c)]
        | Fails n \<Rightarrow> replicate n Yield @ [Emit (Raised c), Throw]
        | Forever \<Rightarrow> [Hang])"

record loop =
  ready :: "micro list list"
  trace :: "event list"

fun run_task :: "micro list \<Rightarrow> event list \<times> micro list option" where
  "run_task [] = ([], None)"
| "run_task (Emit e # ms) = (case run_task ms of (es, r) \<Rightarrow> (e # es, r))"
| "run_task (Yield # ms) = ([], Some ms)"
| "run_task (Throw # ms) = ([], None)"
| "run_task (Hang # ms) = ([], None)"

fun run_ready :: "micro list list \<Rightarrow> micro list list \<times> event list" where
  "run_ready [] = ([], [])"
| "run_ready (t # ts) =
     (case run_task t of (es, r) \<Rightarrow>
        (case run_ready ts of (q, es') \<Rightarrow>
           ((case r of None \<Rightarrow> q | Some t' \<Rightarrow> t' # q), es @ es')))"

definition run_once :: "loop \<Rightarrow> loop" where
  "run_once L = (case run_ready (ready L) of (q, es) \<Rightarrow> \<lparr>ready = q, trace = trace L @ es\<rparr>)"

definition create_task :: "micro list \<Rightarrow> loop \<Rightarrow> loop" where
  "create_task t L = L\<lparr>ready := ready L @ [t]\<rparr>"

datatype result = Completed loop | Uncaught loop | Blocked loop

fun drive :: "micro list \<Rightarrow> loop \<Rightarrow> result" where
  "drive [] L = Completed L"
| "drive (Emit e # ms) L = drive ms (L\<lparr>trace := trace L @ [e]\<rparr>)"
| "drive (Yield # ms) L = drive ms (run_once L)"
| "drive (Throw # ms) L = Uncaught L"
| "drive (Hang # ms) L = Blocked L"

definition run_until_complete :: "micro list \<Rightarrow> loop \<Rightarrow> result" where
  "run_until_complete t L = drive t (run_once L)"

fun iterate :: "nat \<Rightarrow> loop \<Rightarrow> loop" where
  "iterate 0 L = L"
| "iterate (Suc n) L = iterate n (run_once L)"

text \<open>
  \<^verbatim>\<open>run_forever\<close> returns only by an exception; the one \<^verbatim>\<open>run_tasks\<close> catches is
  \<^verbatim>\<open>KeyboardInterrupt\<close>. The environment says after how many iterations it arrives, if ever.
\<close>

definition run_forever :: "nat option \<Rightarrow> loop \<Rightarrow> loop option" where
  "run_forever interrupt L = (case interrupt of None \<Rightarrow> None | Some n \<Rightarrow> Some (iterate n L))"

definition then_do :: "result \<Rightarrow> (loop \<Rightarrow> result) \<Rightarrow> result" where
  "then_do r f = (case r of Completed L \<Rightarrow> f L | Uncaught L \<Rightarrow> Uncaught L | Blocked L \<Rightarrow> Blocked L)"

fun loop_of :: "result \<Rightarrow> loop" where
  "loop_of (Completed L) = L"
| "loop_of (Uncaught L) = L"
| "loop_of (Blocked L) = L"

subsection \<open>\<^verbatim>\<open>build_docs\<close>, \<^verbatim>\<open>start_server\<close>, \<^verbatim>\<open>run_tasks\<close>\<close>

definition build_docs :: "services \<Rightarrow> micro list" where
  "build_docs sv =
     Emit (Begin Build_docs) # opaque sv Create_subprocess_exec @ opaque sv Communicate
       @ [Emit (End Build_docs)]"

definition start_server :: "services \<Rightarrow> micro list" where
  "start_server sv =
     Emit (Begin Start_server) # opaque sv Auth_apply @ [Emit Add_static]
       @ opaque sv Runner_setup @ opaque sv Site_start @ [Emit (End Start_server)]"

definition run_tasks :: "services \<Rightarrow> nat option \<Rightarrow> loop \<Rightarrow> result" where
  "run_tasks sv interrupt L0 =
     (let L1 = create_task (build_docs sv) L0 in
      then_do (run_until_complete (opaque sv Restore_state) L1) (\<lambda>L2.
      then_do (run_until_complete (opaque sv Enable) L2) (\<lambda>L3.
      then_do (run_until_complete (opaque sv Register_contacts) L3) (\<lambda>L4.
      then_do (run_until_complete (opaque sv Load_plugins) L4) (\<lambda>L5.
      then_do (run_until_complete (opaque sv Load_data) L5) (\<lambda>L6.
        let L7 = create_task (opaque sv Start_sniffer_untrusted_agents) L6;
            L8 = create_task (opaque sv Resume_operations) L7;
            L9 = create_task (opaque sv Run_scheduler) L8;
            L10 = create_task (opaque sv Build_model) L9
        in
      then_do (run_until_complete (start_server sv) L10) (\<lambda>L11.
        let L12 = L11\<lparr>trace := trace L11 @ [Log INFO ''All systems ready.'']\<rparr> in
        case run_forever interrupt L12 of
          None \<Rightarrow> Blocked L12
        | Some L13 \<Rightarrow> run_until_complete (opaque sv Teardown) L13)))))))"

subsection \<open>The main block\<close>

text \<open>
  The command line is taken as argparse leaves it: \<^verbatim>\<open>args.environment\<close> (default
  \<^verbatim>\<open>local\<close>) and \<^verbatim>\<open>args.fresh\<close> (default false). The file system is the environment:
  \<^verbatim>\<open>pathlib.Path(p).exists()\<close> and \<^verbatim>\<open>BaseWorld.strip_yml(p)\<close>, which returns the list of
  the YAML documents of the file or raises. \<^verbatim>\<open>BaseWorld.apply_config(name, config)\<close>
  stores \<open>config\<close> under \<open>name\<close>. \<^verbatim>\<open>setup_logger\<close> only configures the logging module and
  the constructors of the services are not seen by any event here, so neither has a
  counterpart below. A \<^verbatim>\<open>KeyboardInterrupt\<close> is considered only where the source
  catches it, in \<^verbatim>\<open>run_forever\<close>.

  The result of a run is the list of its events (log records and the steps of the
  coroutines), the configuration store, and how the process ends: by \<^verbatim>\<open>sys.exit\<close>, by an
  uncaught exception, never, or by reaching the end of the main block.
\<close>

record args =
  environment :: string
  fresh :: bool

definition default_args :: args where
  "default_args = \<lparr>environment = ''local'', fresh = False\<rparr>"

record 'y files =
  path_exists :: "string \<Rightarrow> bool"
  strip_yml :: "string \<Rightarrow> py_error + 'y list"

definition first_document :: "py_error + 'y list \<Rightarrow> py_error + 'y" where
  "first_document r =
     (case r of
        Inl e \<Rightarrow> Inl e
      | Inr [] \<Rightarrow> Inl (IndexError ''list index out of range'')
      | Inr (d # ds) \<Rightarrow> Inr d)"

definition conf_path :: "string \<Rightarrow> string" where
  "conf_path name = ''conf/'' @ name @ ''.yml''"

definition apply_config :: "string \<Rightarrow> 'y \<Rightarrow> (string \<rightharpoonup> 'y) \<Rightarrow> (string \<rightharpoonup> 'y)" where
  "apply_config name config app_configuration = app_configuration(name \<mapsto> config)"

definition selected_config :: "'y files \<Rightarrow> args \<Rightarrow> string" where
  "selected_config fs a =
     (if path_exists fs (conf_path (environment a)) then environment a else ''default'')"

definition load_configuration :: "'y files \<Rightarrow> args \<Rightarrow> (string \<rightharpoonup> 'y) \<times> py_error option" where
  "load_configuration fs a =
     (let config = selected_config fs a in
      case first_document (strip_yml fs (conf_path config)) of
        Inl e \<Rightarrow> (Map.empty, Some e)
      | Inr d \<Rightarrow>
          let c1 = apply_config ''default'' d Map.empty in
          case first_document (strip_yml fs ''conf/agents.yml'') of
            Inl e \<Rightarrow> (c1, Some e)
          | Inr d2 \<Rightarrow>
              let c2 = apply_config ''agents'' d2 c1 in
              case first_document (strip_yml fs ''conf/payloads.yml'') of
                Inl e \<Rightarrow> (c2, Some e)
              | Inr d3 \<Rightarrow> (apply_config ''payloads'' d3 c2, None))"

datatype ending = Exit_code int | Traceback | Never_returns | Normal_end

record 'y process =
  events :: "event list"
  configuration :: "string \<rightharpoonup> 'y"
  ending :: ending

fun ending_of :: "result \<Rightarrow> ending" where
  "ending_of (Completed L) = Normal_end"
| "ending_of (Uncaught L) = Traceback"
| "ending_of (Blocked L) = Never_returns"

definition start_tasks :: "services \<Rightarrow> nat option \<Rightarrow> args \<Rightarrow> loop \<Rightarrow> result" where
  "start_tasks sv interrupt a L0 =
     (if fresh a
      then then_do (run_until_complete (opaque sv Destroy) L0) (run_tasks sv interrupt)
      else run_tasks sv interrupt L0)"

definition main ::
  "probe \<Rightarrow> args \<Rightarrow> 'y files \<Rightarrow> services \<Rightarrow> nat option \<Rightarrow> 'y process" where
  "main getstatusoutput a fs sv interrupt =
     (case validate_environment getstatusoutput of
        (logs, SysExit n) \<Rightarrow> \<lparr>events = logs, configuration = Map.empty, ending = Exit_code n\<rparr>
      | (logs, r) \<Rightarrow>
          (case load_configuration fs a of
             (conf, Some e) \<Rightarrow> \<lparr>events = logs, configuration = conf, ending = Traceback\<rparr>
           | (conf, None) \<Rightarrow>
               let r = start_tasks sv interrupt a \<lparr>ready = [], trace = logs\<rparr>
               in \<lparr>events = trace (loop_of r), configuration = conf, ending = ending_of r\<rparr>))"

subsection \<open>The statements of \<^verbatim>\<open>run_tasks\<close> as a script\<close>

text \<open>
  \<^verbatim>\<open>run_tasks\<close> is straight-line code over the loop. For the proofs its statements are
  also listed as commands, run by \<open>exec\<close>; \<open>run_tasks_script\<close> shows that the list and the
  function are the same program.
\<close>

datatype command =
    Create_task "micro list"
  | Run_until_complete "micro list"
  | Logging event
  | Run_forever "nat option"

fun exec1 :: "command \<Rightarrow> loop \<Rightarrow> result" where
  "exec1 (Create_task t) L = Completed (create_task t L)"
| "exec1 (Run_until_complete t) L = run_until_complete t L"
| "exec1 (Logging e) L = Completed (L\<lparr>trace := trace L @ [e]\<rparr>)"
| "exec1 (Run_forever interrupt) L =
     (case run_forever interrupt L of None \<Rightarrow> Blocked L | Some L' \<Rightarrow> Completed L')"

fun exec :: "command list \<Rightarrow> loop \<Rightarrow> result" where
  "exec [] L = Completed L"
| "exec (c # cs) L = then_do (exec1 c L) (exec cs)"

definition script :: "services \<Rightarrow> nat option \<Rightarrow> command list" where
  "script sv interrupt =
     [Create_task (build_docs sv),
      Run_until_complete (opaque sv Restore_state),
      Run_until_complete (opaque sv Enable),
      Run_until_complete (opaque sv Register_contacts),
      Run_until_complete (opaque sv Load_plugins),
      Run_until_complete (opaque sv Load_data),
      Create_task (opaque sv Start_sniffer_untrusted_agents),
      Create_task (opaque sv Resume_operations),
      Create_task (opaque sv Run_scheduler),
      Create_task (opaque sv Build_model),
      Run_until_complete (start_server sv),
      Logging (Log INFO ''All systems ready.''),
      Run_forever interrupt,
      Run_until_complete (opaque sv Teardown)]"

subsection \<open>Traces\<close>

text \<open>
  \<open>only_after a b tr\<close>: in the trace, \<open>b\<close> does not occur unless \<open>a\<close> has occurred before
  its first occurrence. \<open>precedes a b tr\<close>: moreover \<open>b\<close> does occur.
\<close>

definition emits :: "micro list \<Rightarrow> event set" where
  "emits t = {e. Emit e \<in> set t}"

definition seen :: "loop \<Rightarrow> event set" where
  "seen L = set (trace L) \<union> (\<Union>t\<in>set (ready L). emits t)"

fun command_emits :: "command \<Rightarrow> event set" where
  "command_emits (Create_task t) = emits t"
| "command_emits (Run_until_complete t) = emits t"
| "command_emits (Logging e) = {e}"
| "command_emits (Run_forever interrupt) = {}"

definition only_after :: "event \<Rightarrow> event \<Rightarrow> event list \<Rightarrow> bool" where
  "only_after a b tr = (b \<in> set tr \<longrightarrow> a \<in> set (takeWhile (\<lambda>e. e \<noteq> b) tr))"

definition precedes :: "event \<Rightarrow> event \<Rightarrow> event list \<Rightarrow> bool" where
  "precedes a b tr = (b \<in> set tr \<and> a \<in> set (takeWhile (\<lambda>e. e \<noteq> b) tr))"

lemma run_tasks_script: "run_tasks sv interrupt L = exec (script sv interrupt) L"
  by (simp add: run_tasks_def script_def then_do_def run_forever_def Let_def
      split: result.splits option.splits)

lemma then_do_Completed [simp]: "then_do (Completed L) f = f L"
  by (simp add: then_do_def)

lemma exec_append: "exec (cs @ ds) L = then_do (exec cs L) (exec ds)"
  by (induction cs arbitrary: L) (auto simp: then_do_def split: result.splits)

lemma run_task_emits:
  "run_task t = (es, r) \<Longrightarrow> set es \<subseteq> emits t \<and> (\<forall>t'. r = Some t' \<longrightarrow> emits t' \<subseteq> emits t)"
proof (induction t arbitrary: es r rule: run_task.induct)
  case (2 e ms)
  then show ?case by (auto simp: emits_def split: prod.splits)
qed (auto simp: emits_def)

lemma run_ready_emits:
  "run_ready q = (q', es) \<Longrightarrow>
     set es \<subseteq> (\<Union>t\<in>set q. emits t) \<and> (\<Union>t\<in>set q'. emits t) \<subseteq> (\<Union>t\<in>set q. emits t)"
proof (induction q arbitrary: q' es)
  case Nil
  then show ?case by simp
next
  case (Cons t ts)
  obtain es1 r where t: "run_task t = (es1, r)" by (cases "run_task t")
  obtain q2 es2 where ts: "run_ready ts = (q2, es2)" by (cases "run_ready ts")
  from run_task_emits[OF t] Cons.IH[OF ts] Cons.prems t ts show ?case
    by (auto split: option.splits) blast+
qed

lemma trace_run_once: "\<exists>u. trace (run_once L) = trace L @ u \<and> set u \<subseteq> seen L"
  using run_ready_emits[of "ready L"]
  by (cases "run_ready (ready L)") (auto simp: run_once_def seen_def)

lemma seen_run_once: "seen (run_once L) \<subseteq> seen L"
  using run_ready_emits[of "ready L"]
  by (cases "run_ready (ready L)") (auto simp: run_once_def seen_def)

lemma trace_drive: "\<exists>u. trace (loop_of (drive t L)) = trace L @ u"
proof (induction t L rule: drive.induct)
  case (3 ms L)
  then show ?case using trace_run_once[of L] by auto
qed auto

lemma seen_drive: "seen (loop_of (drive t L)) \<subseteq> seen L \<union> emits t"
proof (induction t L rule: drive.induct)
  case (2 e ms L)
  then show ?case by (auto simp: seen_def emits_def)
next
  case (3 ms L)
  then show ?case using seen_run_once[of L] by (auto simp: emits_def)
qed (auto simp: emits_def)

lemma drive_Completed: "drive t L = Completed L' \<Longrightarrow> emits t \<subseteq> set (trace L')"
proof (induction t L rule: drive.induct)
  case (2 e ms L)
  then show ?case
    using trace_drive[of ms "L\<lparr>trace := trace L @ [e]\<rparr>"] by (auto simp: emits_def)
qed (auto simp: emits_def)

definition script_emits :: "command list \<Rightarrow> event set" where
  "script_emits cs = (\<Union>c\<in>set cs. command_emits c)"

lemma trace_iterate: "\<exists>u. trace (iterate n L) = trace L @ u"
proof (induction n arbitrary: L)
  case 0
  show ?case by simp
next
  case (Suc n)
  from trace_run_once[of L] obtain u where u: "trace (run_once L) = trace L @ u" by blast
  from Suc[of "run_once L"] obtain v where "trace (iterate n (run_once L)) = trace (run_once L) @ v"
    by blast
  with u show ?case by simp
qed

lemma seen_iterate: "seen (iterate n L) \<subseteq> seen L"
proof (induction n arbitrary: L)
  case 0
  show ?case by simp
next
  case (Suc n)
  from Suc[of "run_once L"] seen_run_once[of L] show ?case by auto
qed

lemma trace_run_until_complete: "\<exists>u. trace (loop_of (run_until_complete t L)) = trace L @ u"
proof -
  from trace_run_once[of L] obtain u where u: "trace (run_once L) = trace L @ u" by blast
  from trace_drive[of t "run_once L"] obtain v
    where "trace (loop_of (drive t (run_once L))) = trace (run_once L) @ v" by blast
  with u show ?thesis by (simp add: run_until_complete_def)
qed

lemma seen_run_until_complete: "seen (loop_of (run_until_complete t L)) \<subseteq> seen L \<union> emits t"
  using seen_drive[of t "run_once L"] seen_run_once[of L]
  by (auto simp: run_until_complete_def)

lemma trace_exec1: "\<exists>u. trace (loop_of (exec1 c L)) = trace L @ u"
proof (cases c)
  case (Create_task t)
  then show ?thesis by (simp add: create_task_def)
next
  case (Run_until_complete t)
  then show ?thesis using trace_run_until_complete[of t L] by simp
next
  case (Logging e)
  then show ?thesis by simp
next
  case (Run_forever interrupt)
  then show ?thesis
    using trace_iterate[of _ L] by (cases interrupt) (auto simp: run_forever_def)
qed

lemma seen_exec1: "seen (loop_of (exec1 c L)) \<subseteq> seen L \<union> command_emits c"
proof (cases c)
  case (Create_task t)
  then show ?thesis by (auto simp: create_task_def seen_def)
next
  case (Run_until_complete t)
  then show ?thesis using seen_run_until_complete[of t L] by simp
next
  case (Logging e)
  then show ?thesis by (auto simp: seen_def)
next
  case (Run_forever interrupt)
  then show ?thesis
    using seen_iterate[of _ L] by (cases interrupt) (auto simp: run_forever_def)
qed

lemma loop_of_then_do:
  "loop_of (then_do r f) = (case r of Completed L \<Rightarrow> loop_of (f L) | _ \<Rightarrow> loop_of r)"
  by (cases r) (simp_all add: then_do_def)

lemma trace_exec: "\<exists>u. trace (loop_of (exec cs L)) = trace L @ u"
proof (induction cs arbitrary: L)
  case Nil
  show ?case by simp
next
  case (Cons c cs)
  from trace_exec1[of c L] obtain u where u: "trace (loop_of (exec1 c L)) = trace L @ u"
    by blast
  show ?case
  proof (cases "exec1 c L")
    case (Completed L')
    from Cons[of L'] obtain v where "trace (loop_of (exec cs L')) = trace L' @ v" by blast
    with u Completed show ?thesis by simp
  next
    case (Uncaught L')
    with u show ?thesis by (simp add: then_do_def)
  next
    case (Blocked L')
    with u show ?thesis by (simp add: then_do_def)
  qed
qed

lemma seen_exec: "seen (loop_of (exec cs L)) \<subseteq> seen L \<union> script_emits cs"
proof (induction cs arbitrary: L)
  case Nil
  show ?case by simp
next
  case (Cons c cs)
  show ?case
  proof (cases "exec1 c L")
    case (Completed L')
    with Cons[of L'] seen_exec1[of c L] show ?thesis by (auto simp: script_emits_def)
  next
    case (Uncaught L')
    with seen_exec1[of c L] show ?thesis by (auto simp: then_do_def script_emits_def)
  next
    case (Blocked L')
    with seen_exec1[of c L] show ?thesis by (auto simp: then_do_def script_emits_def)
  qed
qed

lemma not_seen_not_traced: "b \<notin> seen L \<Longrightarrow> b \<notin> set (trace L)"
  by (simp add: seen_def)

lemma only_after_absent: "b \<notin> set tr \<Longrightarrow> only_after a b tr"
  by (simp add: only_after_def)

lemma takeWhile_absent:
  "b \<notin> set t \<Longrightarrow> takeWhile (\<lambda>e. e \<noteq> b) (t @ u) = t @ takeWhile (\<lambda>e. e \<noteq> b) u"
  by (induction t) auto

lemma only_after_append: "a \<in> set t \<Longrightarrow> b \<notin> set t \<Longrightarrow> only_after a b (t @ u)"
  by (simp add: only_after_def takeWhile_absent)

lemma precedes_iff: "precedes a b tr \<longleftrightarrow> b \<in> set tr \<and> only_after a b tr"
  by (auto simp: precedes_def only_after_def)

definition returns :: "micro list \<Rightarrow> bool" where
  "returns t = (Throw \<notin> set t \<and> Hang \<notin> set t)"

lemma drive_Completed_returns: "drive t L = Completed L' \<Longrightarrow> returns t"
  by (induction t L rule: drive.induct) (auto simp: returns_def)

lemma only_after_run:
  assumes b0: "b \<notin> seen L0"
    and bpre: "b \<notin> script_emits pre"
    and bt: "b \<notin> emits t"
    and at: "returns t \<Longrightarrow> a \<in> emits t"
  shows "only_after a b (trace (loop_of (exec (pre @ Run_until_complete t # post) L0)))"
proof (cases "exec pre L0")
  case (Completed L1)
  from seen_exec[of pre L0] Completed b0 bpre have b1: "b \<notin> seen L1" by auto
  show ?thesis
  proof (cases "run_until_complete t L1")
    case c2: (Completed L2)
    from seen_run_until_complete[of t L1] c2 b1 bt have b2: "b \<notin> set (trace L2)"
      by (auto simp: seen_def)
    from c2 have "drive t (run_once L1) = Completed L2" by (simp add: run_until_complete_def)
    from drive_Completed[OF this] drive_Completed_returns[OF this] at
    have a2: "a \<in> set (trace L2)" by auto
    from trace_exec[of post L2] obtain u where "trace (loop_of (exec post L2)) = trace L2 @ u"
      by blast
    with a2 b2 Completed c2 show ?thesis
      by (simp add: exec_append only_after_append)
  next
    case u2: (Uncaught L2)
    from seen_run_until_complete[of t L1] u2 b1 bt have "b \<notin> set (trace L2)"
      by (auto simp: seen_def)
    with Completed u2 show ?thesis
      by (simp add: exec_append then_do_def only_after_absent)
  next
    case bl2: (Blocked L2)
    from seen_run_until_complete[of t L1] bl2 b1 bt have "b \<notin> set (trace L2)"
      by (auto simp: seen_def)
    with Completed bl2 show ?thesis
      by (simp add: exec_append then_do_def only_after_absent)
  qed
next
  case (Uncaught L1)
  from seen_exec[of pre L0] Uncaught b0 bpre have "b \<notin> set (trace L1)"
    by (auto simp: seen_def)
  with Uncaught show ?thesis by (simp add: exec_append then_do_def only_after_absent)
next
  case (Blocked L1)
  from seen_exec[of pre L0] Blocked b0 bpre have "b \<notin> set (trace L1)"
    by (auto simp: seen_def)
  with Blocked show ?thesis by (simp add: exec_append then_do_def only_after_absent)
qed

lemma exec_creates:
  "exec (map Create_task ts) L = Completed (L\<lparr>ready := ready L @ ts\<rparr>)"
  by (induction ts arbitrary: L) (simp_all add: create_task_def)

lemma head_runs:
  "Emit a # r \<in> set q \<Longrightarrow> a \<in> set (snd (run_ready q))"
  by (induction q) (auto split: prod.splits option.splits)

lemma head_run_once: "Emit a # r \<in> set (ready L) \<Longrightarrow> a \<in> set (trace (run_once L))"
  using head_runs[of a r "ready L"] by (auto simp: run_once_def split: prod.splits)

lemma only_after_created:
  assumes b0: "b \<notin> seen L0"
    and bpre: "b \<notin> script_emits pre"
    and br: "b \<notin> emits (Emit a # r)"
    and bmid: "b \<notin> (\<Union>t\<in>set ts. emits t)"
  shows "only_after a b (trace (loop_of (exec
           (pre @ Create_task (Emit a # r) # map Create_task ts @ Run_until_complete t # post) L0)))"
proof (cases "exec pre L0")
  case (Completed L1)
  define L2 where "L2 = L1\<lparr>ready := ready L1 @ (Emit a # r) # ts\<rparr>"
  from seen_exec[of pre L0] Completed b0 bpre have b1: "b \<notin> seen L1" by auto
  with br bmid have b2: "b \<notin> seen L2" by (auto simp: L2_def seen_def)
  have ex: "exec (pre @ Create_task (Emit a # r) # map Create_task ts @ Run_until_complete t # post) L0
      = then_do (drive t (run_once L2)) (exec post)"
    using Completed exec_creates[of "(Emit a # r) # ts" L1]
    by (simp add: exec_append L2_def run_until_complete_def create_task_def
        exec_append[of "map Create_task ts"])
  have a3: "a \<in> set (trace (run_once L2))"
    by (rule head_run_once[of a r]) (simp add: L2_def)
  from seen_run_once[of L2] b2 have b3: "b \<notin> set (trace (run_once L2))"
    by (auto simp: seen_def)
  from trace_drive[of t "run_once L2"] obtain u
    where u: "trace (loop_of (drive t (run_once L2))) = trace (run_once L2) @ u" by blast
  have "\<exists>v. trace (loop_of (then_do (drive t (run_once L2)) (exec post))) = trace (run_once L2) @ v"
  proof (cases "drive t (run_once L2)")
    case c: (Completed L3)
    from trace_exec[of post L3] obtain w where "trace (loop_of (exec post L3)) = trace L3 @ w"
      by blast
    with u c show ?thesis by simp
  next
    case (Uncaught L3)
    with u show ?thesis by (simp add: then_do_def)
  next
    case (Blocked L3)
    with u show ?thesis by (simp add: then_do_def)
  qed
  then obtain v where "trace (loop_of (then_do (drive t (run_once L2)) (exec post)))
      = trace (run_once L2) @ v" by blast
  with a3 b3 ex show ?thesis by (simp add: only_after_append)
next
  case (Uncaught L1)
  from seen_exec[of pre L0] Uncaught b0 bpre have "b \<notin> set (trace L1)"
    by (auto simp: seen_def)
  with Uncaught show ?thesis by (simp add: exec_append then_do_def only_after_absent)
next
  case (Blocked L1)
  from seen_exec[of pre L0] Blocked b0 bpre have "b \<notin> set (trace L1)"
    by (auto simp: seen_def)
  with Blocked show ?thesis by (simp add: exec_append then_do_def only_after_absent)
qed

subsection \<open>Runs in which the awaited coroutines return\<close>

text \<open>
  \<open>returns t\<close>: the coroutine neither raises nor waits for ever. \<open>awaited\<close> lists the
  service coroutines that \<^verbatim>\<open>run_tasks\<close> and \<^verbatim>\<open>start_server\<close> wait for before the listener
  is up.
\<close>

fun finishes :: "behaviour \<Rightarrow> bool" where
  "finishes (Finishes n) = True"
| "finishes (Fails n) = False"
| "finishes Forever = False"

definition awaited :: "coro list" where
  "awaited = [Restore_state, Enable, Register_contacts, Load_plugins, Load_data,
              Auth_apply, Runner_setup, Site_start]"

lemma drive_returns: "returns t \<Longrightarrow> \<exists>L'. drive t L = Completed L'"
  by (induction t L rule: drive.induct) (auto simp: returns_def)

lemma run_until_complete_returns: "returns t \<Longrightarrow> \<exists>L'. run_until_complete t L = Completed L'"
  by (simp add: run_until_complete_def drive_returns)

lemma returns_opaque: "finishes (sv c) \<Longrightarrow> returns (opaque sv c)"
  by (cases "sv c") (auto simp: returns_def opaque_def)

lemma returns_start_server:
  "finishes (sv Auth_apply) \<Longrightarrow> finishes (sv Runner_setup) \<Longrightarrow> finishes (sv Site_start)
     \<Longrightarrow> returns (start_server sv)"
  using returns_opaque[of sv Auth_apply] returns_opaque[of sv Runner_setup]
    returns_opaque[of sv Site_start]
  by (auto simp: returns_def start_server_def)

lemma emitted_run:
  assumes pre: "exec pre L0 = Completed L1" and t: "returns t"
  shows "emits t \<subseteq> set (trace (loop_of (exec (pre @ Run_until_complete t # post) L0)))"
proof -
  from run_until_complete_returns[OF t] obtain L2 where c2: "run_until_complete t L1 = Completed L2"
    by blast
  then have "drive t (run_once L1) = Completed L2" by (simp add: run_until_complete_def)
  from drive_Completed[OF this] have e: "emits t \<subseteq> set (trace L2)" .
  from trace_exec[of post L2] obtain u where "trace (loop_of (exec post L2)) = trace L2 @ u"
    by blast
  with e pre c2 show ?thesis by (auto simp: exec_append)
qed

lemma emitted_created:
  assumes pre: "exec pre L0 = Completed L1"
  shows "a \<in> set (trace (loop_of (exec
           (pre @ Create_task (Emit a # r) # map Create_task ts @ Run_until_complete t # post) L0)))"
proof -
  define L2 where "L2 = L1\<lparr>ready := ready L1 @ (Emit a # r) # ts\<rparr>"
  have ex: "exec (pre @ Create_task (Emit a # r) # map Create_task ts @ Run_until_complete t # post) L0
      = then_do (drive t (run_once L2)) (exec post)"
    using pre exec_creates[of "(Emit a # r) # ts" L1]
    by (simp add: exec_append L2_def run_until_complete_def create_task_def
        exec_append[of "map Create_task ts"])
  have a3: "a \<in> set (trace (run_once L2))"
    by (rule head_run_once[of a r]) (simp add: L2_def)
  from trace_drive[of t "run_once L2"] obtain u
    where u: "trace (loop_of (drive t (run_once L2))) = trace (run_once L2) @ u" by blast
  have "\<exists>v. trace (loop_of (then_do (drive t (run_once L2)) (exec post))) = trace (run_once L2) @ v"
  proof (cases "drive t (run_once L2)")
    case c: (Completed L3)
    from trace_exec[of post L3] obtain w where "trace (loop_of (exec post L3)) = trace L3 @ w"
      by blast
    with u c show ?thesis by simp
  next
    case (Uncaught L3)
    with u show ?thesis by (simp add: then_do_def)
  next
    case (Blocked L3)
    with u show ?thesis by (simp add: then_do_def)
  qed
  with a3 ex show ?thesis by auto
qed

fun command_returns :: "command \<Rightarrow> bool" where
  "command_returns (Create_task t) = True"
| "command_returns (Run_until_complete t) = returns t"
| "command_returns (Logging e) = True"
| "command_returns (Run_forever interrupt) = (interrupt \<noteq> None)"

lemma exec_returns: "list_all command_returns cs \<Longrightarrow> \<exists>L'. exec cs L = Completed L'"
proof (induction cs arbitrary: L)
  case Nil
  show ?case by simp
next
  case (Cons c cs)
  then have "\<exists>L1. exec1 c L = Completed L1"
    using run_until_complete_returns by (cases c) (auto simp: run_forever_def)
  then obtain L1 where "exec1 c L = Completed L1" by blast
  with Cons show ?case by simp
qed

definition program :: "services \<Rightarrow> nat option \<Rightarrow> args \<Rightarrow> command list" where
  "program sv interrupt a =
     (if fresh a then [Run_until_complete (opaque sv Destroy)] else []) @ script sv interrupt"

lemma start_tasks_program: "start_tasks sv interrupt a L = exec (program sv interrupt a) L"
  by (simp add: start_tasks_def program_def run_tasks_script exec_append
      then_do_def split: result.splits)

lemma emits_opaque: "emits (opaque sv c) \<subseteq> {Begin c, End c, Raised c}"
  by (cases "sv c") (auto simp: emits_def opaque_def)

lemma End_opaque: "returns (opaque sv c) \<Longrightarrow> End c \<in> emits (opaque sv c)"
  by (cases "sv c") (auto simp: emits_def opaque_def returns_def)

lemma emits_append: "emits (xs @ ys) = emits xs \<union> emits ys"
  by (auto simp: emits_def)

lemma emits_Cons: "emits (Emit e # xs) = insert e (emits xs)"
  by (auto simp: emits_def)

lemma emits_Nil: "emits [] = {}"
  by (simp add: emits_def)

lemma emits_build_docs:
  "emits (build_docs sv) \<subseteq> {Begin Build_docs, End Build_docs,
      Begin Create_subprocess_exec, End Create_subprocess_exec, Raised Create_subprocess_exec,
      Begin Communicate, End Communicate, Raised Communicate}"
  using emits_opaque[of sv Create_subprocess_exec] emits_opaque[of sv Communicate]
  by (auto simp: build_docs_def emits_append emits_Cons emits_Nil)

lemma emits_start_server:
  "emits (start_server sv) \<subseteq> {Begin Start_server, End Start_server, Add_static,
      Begin Auth_apply, End Auth_apply, Raised Auth_apply,
      Begin Runner_setup, End Runner_setup, Raised Runner_setup,
      Begin Site_start, End Site_start, Raised Site_start}"
  using emits_opaque[of sv Auth_apply] emits_opaque[of sv Runner_setup]
    emits_opaque[of sv Site_start]
  by (auto simp: start_server_def emits_append emits_Cons emits_Nil)

definition boot_prefix :: "services \<Rightarrow> args \<Rightarrow> command list" where
  "boot_prefix sv a =
     (if fresh a then [Run_until_complete (opaque sv Destroy)] else []) @
     [Create_task (build_docs sv)]"

lemma program_split_restore:
  "program sv i a = boot_prefix sv a @ Run_until_complete (opaque sv Restore_state) #
     drop 2 (script sv i)"
  by (simp add: program_def boot_prefix_def script_def)

lemma program_split_plugins:
  "program sv i a = (boot_prefix sv a @ take 3 (drop 1 (script sv i))) @
     Run_until_complete (opaque sv Load_plugins) # drop 5 (script sv i)"
  by (simp add: program_def boot_prefix_def script_def)

lemma program_split_scheduler:
  "program sv i a = (boot_prefix sv a @ take 7 (drop 1 (script sv i))) @
     Create_task (Emit (Begin Run_scheduler) # tl (opaque sv Run_scheduler)) #
     map Create_task [opaque sv Build_model] @
     Run_until_complete (start_server sv) # drop 11 (script sv i)"
  by (simp add: program_def boot_prefix_def script_def opaque_def)

lemma emits_boot_prefix:
  "script_emits (boot_prefix sv a) \<subseteq> {Begin Destroy, End Destroy, Raised Destroy} \<union>
     {Begin Build_docs, End Build_docs,
      Begin Create_subprocess_exec, End Create_subprocess_exec, Raised Create_subprocess_exec,
      Begin Communicate, End Communicate, Raised Communicate}"
  using emits_opaque[of sv Destroy] emits_build_docs[of sv]
  by (auto simp: boot_prefix_def script_emits_def)

lemma script_emits_append: "script_emits (xs @ ys) = script_emits xs \<union> script_emits ys"
  by (auto simp: script_emits_def)

lemma script_emits_Cons: "script_emits (c # cs) = command_emits c \<union> script_emits cs"
  by (auto simp: script_emits_def)

lemma script_emits_Nil: "script_emits [] = {}"
  by (auto simp: script_emits_def)

lemma program_restore_before_plugins:
  assumes "Begin Load_plugins \<notin> seen L0"
  shows "only_after (End Restore_state) (Begin Load_plugins)
           (trace (loop_of (exec (program sv i a) L0)))"
  unfolding program_split_restore
proof (rule only_after_run)
  show "Begin Load_plugins \<notin> seen L0" by fact
  show "Begin Load_plugins \<notin> script_emits (boot_prefix sv a)"
    using emits_boot_prefix[of sv a] by auto
  show "Begin Load_plugins \<notin> emits (opaque sv Restore_state)"
    using emits_opaque[of sv Restore_state] by auto
  show "returns (opaque sv Restore_state) \<Longrightarrow> End Restore_state \<in> emits (opaque sv Restore_state)"
    by (rule End_opaque)
qed

lemma program_plugins_before_scheduler:
  assumes "Begin Run_scheduler \<notin> seen L0"
  shows "only_after (End Load_plugins) (Begin Run_scheduler)
           (trace (loop_of (exec (program sv i a) L0)))"
  unfolding program_split_plugins
proof (rule only_after_run)
  show "Begin Run_scheduler \<notin> seen L0" by fact
  show "Begin Run_scheduler \<notin> script_emits (boot_prefix sv a @ take 3 (drop 1 (script sv i)))"
    using emits_boot_prefix[of sv a] emits_opaque[of sv Restore_state] emits_opaque[of sv Enable]
      emits_opaque[of sv Register_contacts]
    by (auto simp: script_def script_emits_append script_emits_Cons script_emits_Nil)
  show "Begin Run_scheduler \<notin> emits (opaque sv Load_plugins)"
    using emits_opaque[of sv Load_plugins] by auto
  show "returns (opaque sv Load_plugins) \<Longrightarrow> End Load_plugins \<in> emits (opaque sv Load_plugins)"
    by (rule End_opaque)
qed

lemma program_scheduler_before_listener:
  assumes "Begin Site_start \<notin> seen L0"
  shows "only_after (Begin Run_scheduler) (Begin Site_start)
           (trace (loop_of (exec (program sv i a) L0)))"
  unfolding program_split_scheduler
proof (rule only_after_created)
  show "Begin Site_start \<notin> seen L0" by fact
  show "Begin Site_start \<notin> script_emits (boot_prefix sv a @ take 7 (drop 1 (script sv i)))"
    using emits_boot_prefix[of sv a] emits_opaque[of sv Restore_state] emits_opaque[of sv Enable]
      emits_opaque[of sv Register_contacts] emits_opaque[of sv Load_plugins]
      emits_opaque[of sv Load_data] emits_opaque[of sv Start_sniffer_untrusted_agents]
      emits_opaque[of sv Resume_operations]
    by (auto simp: script_def script_emits_append script_emits_Cons script_emits_Nil)
  show "Begin Site_start \<notin> emits (Emit (Begin Run_scheduler) # tl (opaque sv Run_scheduler))"
    using emits_opaque[of sv Run_scheduler] by (auto simp: opaque_def emits_Cons)
  show "Begin Site_start \<notin> (\<Union>t\<in>set [opaque sv Build_model]. emits t)"
    using emits_opaque[of sv Build_model] by auto
qed

text \<open>
  \<open>boots\<close>: every awaited coroutine returns, and so does \<^verbatim>\<open>destroy\<close> when \<^verbatim>\<open>--fresh\<close> is
  given.
\<close>

definition boots :: "services \<Rightarrow> args \<Rightarrow> bool" where
  "boots sv a = (list_all (\<lambda>c. finishes (sv c)) awaited \<and> (fresh a \<longrightarrow> finishes (sv Destroy)))"

lemma boot_prefix_returns: "boots sv a \<Longrightarrow> list_all command_returns (boot_prefix sv a)"
  by (simp add: boots_def boot_prefix_def returns_opaque)

lemma program_plugins_begin:
  assumes "boots sv a"
  shows "Begin Load_plugins \<in> set (trace (loop_of (exec (program sv i a) L0)))"
proof -
  have "list_all command_returns (boot_prefix sv a @ take 3 (drop 1 (script sv i)))"
    using assms boot_prefix_returns[OF assms]
    by (simp add: script_def boots_def awaited_def returns_opaque)
  from exec_returns[OF this] obtain L1
    where pre: "exec (boot_prefix sv a @ take 3 (drop 1 (script sv i))) L0 = Completed L1"
    by blast
  have "returns (opaque sv Load_plugins)"
    using assms by (simp add: boots_def awaited_def returns_opaque)
  from emitted_run[OF pre this] show ?thesis
    unfolding program_split_plugins by (auto simp: opaque_def emits_Cons)
qed

lemma program_scheduler_begin:
  assumes "boots sv a"
  shows "Begin Run_scheduler \<in> set (trace (loop_of (exec (program sv i a) L0)))"
proof -
  have "list_all command_returns (boot_prefix sv a @ take 7 (drop 1 (script sv i)))"
    using assms boot_prefix_returns[OF assms]
    by (simp add: script_def boots_def awaited_def returns_opaque)
  from exec_returns[OF this] obtain L1
    where pre: "exec (boot_prefix sv a @ take 7 (drop 1 (script sv i))) L0 = Completed L1"
    by blast
  from emitted_created[OF pre] show ?thesis
    unfolding program_split_scheduler .
qed

lemma program_split_server:
  "program sv i a = (boot_prefix sv a @ take 9 (drop 1 (script sv i))) @
     Run_until_complete (start_server sv) # drop 11 (script sv i)"
  by (simp add: program_def boot_prefix_def script_def)

lemma program_listener_begin:
  assumes "boots sv a"
  shows "Begin Site_start \<in> set (trace (loop_of (exec (program sv i a) L0)))"
proof -
  have "list_all command_returns (boot_prefix sv a @ take 9 (drop 1 (script sv i)))"
    using assms boot_prefix_returns[OF assms]
    by (simp add: script_def boots_def awaited_def returns_opaque)
  from exec_returns[OF this] obtain L1
    where pre: "exec (boot_prefix sv a @ take 9 (drop 1 (script sv i))) L0 = Completed L1"
    by blast
  have "returns (start_server sv)"
    using assms by (simp add: boots_def awaited_def returns_start_server)
  from emitted_run[OF pre this] show ?thesis
    unfolding program_split_server
    by (auto simp: start_server_def opaque_def emits_Cons emits_append)
qed

fun is_log :: "event \<Rightarrow> bool" where
  "is_log (Log lv m) = True"
| "is_log e = False"

lemma check_version_logs: "list_all is_log (fst (check_version g entry))"
  by (auto simp: check_version_def split: prod.splits sum.splits option.splits)

lemma check_versions_logs: "list_all is_log (fst (check_versions g vs))"
proof (induction vs)
  case Nil
  show ?case by simp
next
  case (Cons v vs)
  from check_version_logs[of g v] Cons show ?case
    by (auto split: prod.splits outcome.splits)
qed

lemma validate_environment_logs: "list_all is_log (fst (validate_environment g))"
  using check_versions_logs[of g versions]
  by (auto simp: validate_environment_def split: prod.splits outcome.splits)

text \<open>
  \<open>reaches_boot\<close>: the environment check does not exit and the three configuration files
  load, so that the main block gets as far as the event loop.
\<close>

definition reaches_boot :: "probe \<Rightarrow> 'y files \<Rightarrow> args \<Rightarrow> bool" where
  "reaches_boot g fs a =
     ((case snd (validate_environment g) of SysExit n \<Rightarrow> False | _ \<Rightarrow> True) \<and>
      snd (load_configuration fs a) = None)"

lemma main_events:
  "events (main g a fs sv i) =
     (if reaches_boot g fs a
      then trace (loop_of (exec (program sv i a) \<lparr>ready = [], trace = fst (validate_environment g)\<rparr>))
      else fst (validate_environment g))"
  by (auto simp: main_def reaches_boot_def start_tasks_program Let_def
      split: prod.splits outcome.splits option.splits)

lemma logs_not_seen:
  "\<not> is_log b \<Longrightarrow> b \<notin> seen \<lparr>ready = [], trace = fst (validate_environment g)\<rparr>"
  using validate_environment_logs[of g] by (auto simp: seen_def list_all_iff)

lemma logs_not_in: "\<not> is_log b \<Longrightarrow> b \<notin> set (fst (validate_environment g))"
  using validate_environment_logs[of g] by (auto simp: list_all_iff)

text \<open>
  A concrete run: both tools newer than the minimum, the three configuration files
  present, every service coroutine returning except the scheduler, which runs for ever.
\<close>

definition probe_ok :: probe where
  "probe_ok cmd =
     (if cmd = ''python --version'' then Inr (0, ''Python 3.8.10'')
      else if cmd = ''go version'' then Inr (0, ''go version go1.13.4 linux/amd64'')
      else Inr (127, ''sh: 1: not found''))"

definition files_ok :: "string files" where
  "files_ok =
     \<lparr>path_exists = (\<lambda>p. p \<in> set [''conf/default.yml'', ''conf/agents.yml'', ''conf/payloads.yml'']),
      strip_yml = (\<lambda>p. if p \<in> set [''conf/default.yml'', ''conf/agents.yml'', ''conf/payloads.yml'']
                        then Inr [''contents of '' @ p]
                        else Inl (OtherException ''No such file or directory''))\<rparr>"

definition services_ok :: services where
  "services_ok c =
     (if c = Run_scheduler then Forever else if c = Restore_state then Finishes 2 else Finishes 0)"

definition fresh_args :: args where
  "fresh_args = \<lparr>environment = ''local'', fresh = True\<rparr>"

lemma example_reaches_boot: "reaches_boot probe_ok files_ok default_args"
  by code_simp

lemma example_boots: "boots services_ok default_args"
  by code_simp

lemma example_fresh_reaches_boot: "reaches_boot probe_ok files_ok fresh_args"
  by code_simp

lemma example_fresh_boots: "boots services_ok fresh_args"
  by code_simp

text \<open>
  C7. In every run of the program, whatever the services do: plugins are not loaded
  (\<open>Begin Load_plugins\<close>) unless the persisted state has been restored to the end
  (\<open>End Restore_state\<close>) before; the scheduler task does not start unless the plugins have
  been loaded to the end before; the listener (\<^verbatim>\<open>TCPSite.start\<close>) does not start unless the
  scheduler task has had its first turn before. When the program reaches the boot and
  the awaited service coroutines return, all of these events occur, in that order.
\<close>

theorem boot_sequence_order:
  "only_after (End Restore_state) (Begin Load_plugins) (events (main g a fs sv i)) \<and>
   only_after (End Load_plugins) (Begin Run_scheduler) (events (main g a fs sv i)) \<and>
   only_after (Begin Run_scheduler) (Begin Site_start) (events (main g a fs sv i)) \<and>
   (reaches_boot g fs a \<and> boots sv a \<longrightarrow>
      precedes (End Restore_state) (Begin Load_plugins) (events (main g a fs sv i)) \<and>
      precedes (End Load_plugins) (Begin Run_scheduler) (events (main g a fs sv i)) \<and>
      precedes (Begin Run_scheduler) (Begin Site_start) (events (main g a fs sv i)))"
proof (cases "reaches_boot g fs a")
  case True
  define L0 where "L0 = \<lparr>ready = [], trace = fst (validate_environment g)\<rparr>"
  have 1: "only_after (End Restore_state) (Begin Load_plugins)
             (trace (loop_of (exec (program sv i a) L0)))"
    unfolding L0_def by (rule program_restore_before_plugins, rule logs_not_seen) simp
  have 2: "only_after (End Load_plugins) (Begin Run_scheduler)
             (trace (loop_of (exec (program sv i a) L0)))"
    unfolding L0_def by (rule program_plugins_before_scheduler, rule logs_not_seen) simp
  have 3: "only_after (Begin Run_scheduler) (Begin Site_start)
             (trace (loop_of (exec (program sv i a) L0)))"
    unfolding L0_def by (rule program_scheduler_before_listener, rule logs_not_seen) simp
  from True 1 2 3 show ?thesis
    using program_plugins_begin[of sv a i L0] program_scheduler_begin[of sv a i L0]
      program_listener_begin[of sv a i L0]
    by (simp add: main_events precedes_iff L0_def)
next
  case False
  then show ?thesis
    using logs_not_in[of "Begin Load_plugins" g] logs_not_in[of "Begin Run_scheduler" g]
      logs_not_in[of "Begin Site_start" g]
    by (simp add: main_events only_after_absent)
qed

theorem boot_sequence_order_witness:
  "reaches_boot probe_ok files_ok default_args \<and> boots services_ok default_args \<and>
   precedes (End Restore_state) (Begin Load_plugins)
     (events (main probe_ok default_args files_ok services_ok None)) \<and>
   precedes (End Load_plugins) (Begin Run_scheduler)
     (events (main probe_ok default_args files_ok services_ok None)) \<and>
   precedes (Begin Run_scheduler) (Begin Site_start)
     (events (main probe_ok default_args files_ok services_ok None))"
  using boot_sequence_order[of probe_ok default_args files_ok services_ok None]
    example_reaches_boot example_boots
  by simp

lemma Destroy_not_in_script:
  "Begin Destroy \<notin> script_emits (script sv i)"
  using emits_opaque[of sv Restore_state] emits_opaque[of sv Enable]
    emits_opaque[of sv Register_contacts] emits_opaque[of sv Load_plugins]
    emits_opaque[of sv Load_data] emits_opaque[of sv Start_sniffer_untrusted_agents]
    emits_opaque[of sv Resume_operations] emits_opaque[of sv Run_scheduler]
    emits_opaque[of sv Build_model] emits_opaque[of sv Teardown]
    emits_build_docs[of sv] emits_start_server[of sv]
  by (auto simp: script_def script_emits_Cons script_emits_Nil)

lemma program_not_fresh:
  assumes "\<not> fresh a" and "Begin Destroy \<notin> seen L0"
  shows "Begin Destroy \<notin> set (trace (loop_of (exec (program sv i a) L0)))"
  using seen_exec[of "program sv i a" L0] assms Destroy_not_in_script[of sv i]
  by (auto simp: program_def seen_def)

lemma program_destroy_first:
  assumes "fresh a" and "b \<notin> seen L0" and "b \<notin> {Begin Destroy, End Destroy, Raised Destroy}"
  shows "only_after (End Destroy) b (trace (loop_of (exec (program sv i a) L0)))"
proof -
  have p: "program sv i a = [] @ Run_until_complete (opaque sv Destroy) # script sv i"
    using assms(1) by (simp add: program_def)
  show ?thesis
    unfolding p
  proof (rule only_after_run)
    show "b \<notin> seen L0" by fact
    show "b \<notin> script_emits []" by (simp add: script_emits_Nil)
    show "b \<notin> emits (opaque sv Destroy)" using emits_opaque[of sv Destroy] assms(3) by auto
    show "returns (opaque sv Destroy) \<Longrightarrow> End Destroy \<in> emits (opaque sv Destroy)"
      by (rule End_opaque)
  qed
qed

lemma program_split_build_docs:
  "program sv i a = (if fresh a then [Run_until_complete (opaque sv Destroy)] else []) @
     Create_task (Emit (Begin Build_docs) # tl (build_docs sv)) # map Create_task [] @
     Run_until_complete (opaque sv Restore_state) # drop 2 (script sv i)"
  by (simp add: program_def script_def build_docs_def)

lemma program_build_docs_begin:
  assumes "boots sv a"
  shows "Begin Build_docs \<in> set (trace (loop_of (exec (program sv i a) L0)))"
proof -
  have "list_all command_returns (if fresh a then [Run_until_complete (opaque sv Destroy)] else [])"
    using assms by (simp add: boots_def returns_opaque)
  from exec_returns[OF this] obtain L1
    where pre: "exec (if fresh a then [Run_until_complete (opaque sv Destroy)] else []) L0 = Completed L1"
    by blast
  from emitted_created[OF pre] show ?thesis
    unfolding program_split_build_docs .
qed

lemma program_restore_begin:
  assumes "boots sv a"
  shows "Begin Restore_state \<in> set (trace (loop_of (exec (program sv i a) L0)))"
proof -
  from exec_returns[OF boot_prefix_returns[OF assms]] obtain L1
    where pre: "exec (boot_prefix sv a) L0 = Completed L1"
    by blast
  have "returns (opaque sv Restore_state)"
    using assms by (simp add: boots_def awaited_def returns_opaque)
  from emitted_run[OF pre this] show ?thesis
    unfolding program_split_restore by (auto simp: opaque_def emits_Cons)
qed

lemma program_destroy_begin:
  assumes "boots sv a" "fresh a"
  shows "Begin Destroy \<in> set (trace (loop_of (exec (program sv i a) L0)))"
proof -
  have p: "program sv i a = [] @ Run_until_complete (opaque sv Destroy) # script sv i"
    using assms(2) by (simp add: program_def)
  have pre: "exec [] L0 = Completed L0" by simp
  have "returns (opaque sv Destroy)"
    using assms by (simp add: boots_def returns_opaque)
  from emitted_run[OF pre this] show ?thesis
    unfolding p by (auto simp: opaque_def emits_Cons)
qed

text \<open>
  C10. With \<^verbatim>\<open>--fresh\<close>, no event of \<^verbatim>\<open>run_tasks\<close> (its first task \<^verbatim>\<open>build_docs\<close>, the
  restoring of the persisted state) occurs unless \<^verbatim>\<open>data_svc.destroy()\<close> has run to its
  end before. Without \<^verbatim>\<open>--fresh\<close>, \<^verbatim>\<open>destroy\<close> is never begun. When the program reaches
  the boot and the awaited coroutines return, the state is restored, and with
  \<^verbatim>\<open>--fresh\<close> \<^verbatim>\<open>destroy\<close> has been run to its end before that.
\<close>

theorem fresh_destroys_before_boot:
  "(fresh a \<longrightarrow>
      only_after (End Destroy) (Begin Build_docs) (events (main g a fs sv i)) \<and>
      only_after (End Destroy) (Begin Restore_state) (events (main g a fs sv i))) \<and>
   (\<not> fresh a \<longrightarrow> Begin Destroy \<notin> set (events (main g a fs sv i))) \<and>
   (reaches_boot g fs a \<and> boots sv a \<longrightarrow>
      Begin Restore_state \<in> set (events (main g a fs sv i)) \<and>
      (fresh a \<longrightarrow>
         Begin Destroy \<in> set (events (main g a fs sv i)) \<and>
         precedes (End Destroy) (Begin Build_docs) (events (main g a fs sv i)) \<and>
         precedes (End Destroy) (Begin Restore_state) (events (main g a fs sv i))))"
proof (cases "reaches_boot g fs a")
  case True
  define L0 where "L0 = \<lparr>ready = [], trace = fst (validate_environment g)\<rparr>"
  have 1: "fresh a \<Longrightarrow> only_after (End Destroy) (Begin Build_docs)
             (trace (loop_of (exec (program sv i a) L0)))"
    unfolding L0_def by (rule program_destroy_first, assumption, rule logs_not_seen) simp_all
  have 2: "fresh a \<Longrightarrow> only_after (End Destroy) (Begin Restore_state)
             (trace (loop_of (exec (program sv i a) L0)))"
    unfolding L0_def by (rule program_destroy_first, assumption, rule logs_not_seen) simp_all
  have 3: "\<not> fresh a \<Longrightarrow> Begin Destroy \<notin> set (trace (loop_of (exec (program sv i a) L0)))"
    unfolding L0_def by (rule program_not_fresh, assumption, rule logs_not_seen) simp
  from True 1 2 3 show ?thesis
    using program_build_docs_begin[of sv a i L0] program_restore_begin[of sv a i L0]
      program_destroy_begin[of sv a i L0]
    by (auto simp add: main_events precedes_iff L0_def)
next
  case False
  then show ?thesis
    using logs_not_in[of "Begin Build_docs" g] logs_not_in[of "Begin Restore_state" g]
      logs_not_in[of "Begin Destroy" g]
    by (simp add: main_events only_after_absent)
qed

theorem fresh_destroys_before_boot_witness:
  "fresh fresh_args \<and> reaches_boot probe_ok files_ok fresh_args \<and> boots services_ok fresh_args \<and>
   \<not> fresh default_args \<and>
   Begin Destroy \<in> set (events (main probe_ok fresh_args files_ok services_ok None)) \<and>
   precedes (End Destroy) (Begin Restore_state)
     (events (main probe_ok fresh_args files_ok services_ok None)) \<and>
   Begin Destroy \<notin> set (events (main probe_ok default_args files_ok services_ok None)) \<and>
   Begin Restore_state \<in> set (events (main probe_ok default_args files_ok services_ok None))"
  using fresh_destroys_before_boot[of fresh_args probe_ok files_ok services_ok None]
    fresh_destroys_before_boot[of default_args probe_ok files_ok services_ok None]
    example_reaches_boot example_boots example_fresh_reaches_boot example_fresh_boots
  by (simp add: fresh_args_def default_args_def)

subsection \<open>When the environment check exits\<close>

text \<open>
  What a probe can come to, said without the loop: the tool is found at or below the
  minimum (the command exits with status 0, the pattern matches its output, the matched
  text is a version number, and it compares \<open>\<le>\<close> the minimum), or probing raises (the
  call itself raises, or the command exits with status 0 and its output does not match
  the pattern or the matched text is not a version number).
\<close>

definition at_or_below_minimum :: "probe \<Rightarrow> version_entry \<Rightarrow> bool" where
  "at_or_below_minimum getstatusoutput entry =
     (case entry of (exe, cmd, pat, min_version) \<Rightarrow>
        (case getstatusoutput cmd of
           Inl e \<Rightarrow> False
         | Inr (failed, output) \<Rightarrow>
             failed = 0 \<and>
             (case re_search_group1 pat output of
                None \<Rightarrow> False
              | Some v \<Rightarrow>
                  (case StrictVersion v of
                     Inl e \<Rightarrow> False
                   | Inr installed \<Rightarrow>
                       (case StrictVersion min_version of
                          Inl e \<Rightarrow> False
                        | Inr minimum \<Rightarrow> version_le installed minimum)))))"

definition probing_raises :: "probe \<Rightarrow> version_entry \<Rightarrow> bool" where
  "probing_raises getstatusoutput entry =
     (case entry of (exe, cmd, pat, min_version) \<Rightarrow>
        (case getstatusoutput cmd of
           Inl e \<Rightarrow> True
         | Inr (failed, output) \<Rightarrow>
             failed = 0 \<and>
             (case re_search_group1 pat output of
                None \<Rightarrow> True
              | Some v \<Rightarrow> (case StrictVersion v of Inl e \<Rightarrow> True | Inr installed \<Rightarrow> False))))"

text \<open>The condition for exit as the specification words it: some probe is at or below its minimum.\<close>

definition some_probe_at_or_below_minimum :: "probe \<Rightarrow> bool" where
  "some_probe_at_or_below_minimum getstatusoutput =
     list_ex (at_or_below_minimum getstatusoutput) versions"

fun the_error :: "'a outcome \<Rightarrow> py_error" where
  "the_error (Raise e) = e"
| "the_error r = OtherException []"

definition probe_unparsable_python :: probe where
  "probe_unparsable_python cmd =
     (if cmd = ''python --version'' then Inr (0, ''Python 3'')
      else Inr (0, ''go version go1.10 linux/amd64''))"

definition probe_at_minimum :: probe where
  "probe_at_minimum cmd =
     (if cmd = ''python --version'' then Inr (0, ''Python 3.6.1'')
      else Inr (0, ''go version go1.13.4 linux/amd64''))"

lemma minimum_versions_valid:
  "StrictVersion ''3.6.1'' = Inr \<lparr>version = (3, 6, 1), prerelease = None\<rparr>"
  "StrictVersion ''1.11'' = Inr \<lparr>version = (1, 11, 0), prerelease = None\<rparr>"
  by code_simp+

lemma check_version_general:
  assumes m: "StrictVersion min_version = Inr minimum"
  shows "(at_or_below_minimum g (exe, cmd, pat, min_version) \<and>
            \<not> probing_raises g (exe, cmd, pat, min_version) \<and>
            snd (check_version g (exe, cmd, pat, min_version)) = SysExit 1) \<or>
         (\<not> at_or_below_minimum g (exe, cmd, pat, min_version) \<and>
            probing_raises g (exe, cmd, pat, min_version) \<and>
            (\<exists>e. snd (check_version g (exe, cmd, pat, min_version)) = Raise e)) \<or>
         (\<not> at_or_below_minimum g (exe, cmd, pat, min_version) \<and>
            \<not> probing_raises g (exe, cmd, pat, min_version) \<and>
            snd (check_version g (exe, cmd, pat, min_version)) = Return ())"
proof (cases "g cmd")
  case (Inl e)
  then show ?thesis
    by (simp add: check_version_def at_or_below_minimum_def probing_raises_def)
next
  case (Inr p)
  obtain failed out where p: "p = (failed, out)" by (cases p)
  show ?thesis
  proof (cases "failed = 0")
    case False
    with Inr p show ?thesis
      by (simp add: check_version_def at_or_below_minimum_def probing_raises_def)
  next
    case True
    show ?thesis
    proof (cases "re_search_group1 pat out")
      case None
      with Inr p True show ?thesis
        by (simp add: check_version_def at_or_below_minimum_def probing_raises_def)
    next
      case (Some v)
      show ?thesis
      proof (cases "StrictVersion v")
        case (Inl e)
        with Inr p True Some show ?thesis
          by (simp add: check_version_def at_or_below_minimum_def probing_raises_def)
      next
        case inst: (Inr installed)
        with Inr p True Some m show ?thesis
          by (simp add: check_version_def at_or_below_minimum_def probing_raises_def)
      qed
    qed
  qed
qed

lemma check_version_outcome:
  assumes "entry = python_entry \<or> entry = go_entry"
  shows "(at_or_below_minimum g entry \<and> \<not> probing_raises g entry \<and>
            snd (check_version g entry) = SysExit 1) \<or>
         (\<not> at_or_below_minimum g entry \<and> probing_raises g entry \<and>
            (\<exists>e. snd (check_version g entry) = Raise e)) \<or>
         (\<not> at_or_below_minimum g entry \<and> \<not> probing_raises g entry \<and>
            snd (check_version g entry) = Return ())"
  using assms check_version_general[OF minimum_versions_valid(1), of g]
    check_version_general[OF minimum_versions_valid(2), of g]
  unfolding python_entry_def go_entry_def by blast

lemma validate_environment_outcome:
  "snd (validate_environment g) =
     (if at_or_below_minimum g python_entry then SysExit 1
      else if probing_raises g python_entry then Return False
      else if at_or_below_minimum g go_entry then SysExit 1
      else if probing_raises g go_entry then Return False
      else Return True)"
proof -
  obtain l1 r1 where 1: "check_version g python_entry = (l1, r1)"
    by (cases "check_version g python_entry")
  obtain l2 r2 where 2: "check_version g go_entry = (l2, r2)"
    by (cases "check_version g go_entry")
  have p: "(at_or_below_minimum g python_entry \<and> \<not> probing_raises g python_entry \<and> r1 = SysExit 1) \<or>
         (\<not> at_or_below_minimum g python_entry \<and> probing_raises g python_entry \<and> (\<exists>e. r1 = Raise e)) \<or>
         (\<not> at_or_below_minimum g python_entry \<and> \<not> probing_raises g python_entry \<and> r1 = Return ())"
    using check_version_outcome[of python_entry g] 1 by simp
  have q: "(at_or_below_minimum g go_entry \<and> \<not> probing_raises g go_entry \<and> r2 = SysExit 1) \<or>
         (\<not> at_or_below_minimum g go_entry \<and> probing_raises g go_entry \<and> (\<exists>e. r2 = Raise e)) \<or>
         (\<not> at_or_below_minimum g go_entry \<and> \<not> probing_raises g go_entry \<and> r2 = Return ())"
    using check_version_outcome[of go_entry g] 2 by simp
  have v: "snd (validate_environment g) =
     (case r1 of Return u \<Rightarrow> (case r2 of Return u \<Rightarrow> Return True | SysExit n \<Rightarrow> SysExit n
        | Raise e \<Rightarrow> Return False) | SysExit n \<Rightarrow> SysExit n | Raise e \<Rightarrow> Return False)"
    using 1 2 by (simp add: validate_environment_def versions_def split: outcome.splits)
  from p q show ?thesis
    unfolding v by (elim disjE conjE exE) simp_all
qed

lemma at_or_below_not_raises:
  "entry = python_entry \<or> entry = go_entry \<Longrightarrow>
     at_or_below_minimum g entry \<Longrightarrow> \<not> probing_raises g entry"
  using check_version_outcome[of entry g] by auto

text \<open>
  C8, as amended. \<^verbatim>\<open>validate_environment\<close> exits with code 1 exactly when the python probe is
  at or below its minimum, or probing python does not raise and the go probe is at or
  below its minimum. It returns \<^verbatim>\<open>False\<close> exactly when probing python raises, or python is
  not found at or below its minimum and probing go raises; an exception at the python
  probe ends the loop, so the go probe is then never made. A tool found at exactly the minimum version is
  rejected. After exit the program stops with code 1 before any configuration is
  loaded; after a return, whether \<^verbatim>\<open>True\<close> or \<^verbatim>\<open>False\<close>, it goes on to load the
  configuration.
\<close>

theorem validate_environment_exit_iff:
  "(snd (validate_environment g) = SysExit 1 \<longleftrightarrow>
      at_or_below_minimum g python_entry \<or>
      (\<not> probing_raises g python_entry \<and> at_or_below_minimum g go_entry)) \<and>
   (snd (validate_environment g) = Return False \<longleftrightarrow>
      probing_raises g python_entry \<or>
      (\<not> at_or_below_minimum g python_entry \<and> probing_raises g go_entry)) \<and>
   (snd (validate_environment g) = Return True \<longleftrightarrow>
      \<not> at_or_below_minimum g python_entry \<and> \<not> probing_raises g python_entry \<and>
      \<not> at_or_below_minimum g go_entry \<and> \<not> probing_raises g go_entry) \<and>
   (\<forall>out. g ''python --version'' = Inr (0, out) \<and> search_version out = Some ''3.6.1'' \<longrightarrow>
      snd (validate_environment g) = SysExit 1) \<and>
   (snd (validate_environment g) = SysExit 1 \<longrightarrow>
      ending (main g a fs sv i) = Exit_code 1 \<and> configuration (main g a fs sv i) = Map.empty) \<and>
   (snd (validate_environment g) \<noteq> SysExit 1 \<longrightarrow>
      configuration (main g a fs sv i) = fst (load_configuration fs a))"
proof -
  obtain logs r where v: "validate_environment g = (logs, r)"
    by (cases "validate_environment g")
  with validate_environment_outcome[of g]
  have r: "r = (if at_or_below_minimum g python_entry then SysExit 1
      else if probing_raises g python_entry then Return False
      else if at_or_below_minimum g go_entry then SysExit 1
      else if probing_raises g go_entry then Return False
      else Return True)" by simp
  have m: "r = SysExit 1 \<longrightarrow>
      ending (main g a fs sv i) = Exit_code 1 \<and> configuration (main g a fs sv i) = Map.empty"
    using v by (simp add: main_def)
  have n: "r \<noteq> SysExit 1 \<longrightarrow> configuration (main g a fs sv i) = fst (load_configuration fs a)"
    using v r by (auto simp: main_def Let_def split: prod.splits option.splits if_splits)
  have e: "\<forall>out. g ''python --version'' = Inr (0, out) \<and> search_version out = Some ''3.6.1'' \<longrightarrow>
      at_or_below_minimum g python_entry"
    by (simp add: at_or_below_minimum_def python_entry_def minimum_versions_valid
        version_le_def cmp_def)
  from m n r v e show ?thesis
    using at_or_below_not_raises[of python_entry g] at_or_below_not_raises[of go_entry g]
    by (auto split: if_splits)
qed

theorem validate_environment_exit_iff_witness:
  "probing_raises probe_unparsable_python python_entry \<and>
   snd (validate_environment probe_unparsable_python) = Return False \<and>
   snd (validate_environment probe_unparsable_python) \<noteq> SysExit 1 \<and>
   at_or_below_minimum probe_at_minimum python_entry \<and>
   snd (validate_environment probe_at_minimum) = SysExit 1 \<and>
   ending (main probe_at_minimum default_args files_ok services_ok None) = Exit_code 1"
proof -
  have 1: "probing_raises probe_unparsable_python python_entry" by code_simp
  have 2: "at_or_below_minimum probe_at_minimum python_entry" by code_simp
  from 1 2 show ?thesis
    using validate_environment_exit_iff[of probe_unparsable_python default_args files_ok
        services_ok None]
      validate_environment_exit_iff[of probe_at_minimum default_args files_ok services_ok None]
    by simp
qed

text \<open>
  C8 as stated fails: here the go probe is below its minimum (1.10), so the stated
  condition for exit holds, but the python probe raises first and the function returns
  \<^verbatim>\<open>False\<close>.
\<close>

theorem validate_environment_exit_counterexample:
  "some_probe_at_or_below_minimum probe_unparsable_python \<and>
   snd (validate_environment probe_unparsable_python) = Return False"
  by code_simp

subsection \<open>Which configuration is loaded\<close>







section \<open>The engine, from the specification\<close>

subsection \<open>The Fact Store\<close>

text \<open>
  Modelled from the spec: the Fact Store is not under \<^verbatim>\<open>src/\<close>. A Fact is
  \<open>(trait, value, source, score)\<close>, unique by \<open>(trait, value)\<close> within an operation;
  \<open>add(trait, value, source, score)\<close> is an upsert keyed by \<open>(trait, value)\<close>: a later write
  with the same key updates source and score, and the first occurrence fixes the
  position. The store of one operation is the list of its facts in insertion order.
\<close>

record fact =
  trait :: string
  fvalue :: string
  source :: string
  score :: int

text \<open>
  Modelled from the spec: \<open>add(trait, value, source, score)\<close> (section 4.1), absent from
  \<^verbatim>\<open>src/\<close>: "idempotent upsert keyed by (trait,value); first occurrence fixes insertion
  order".
\<close>

fun add :: "string \<Rightarrow> string \<Rightarrow> string \<Rightarrow> int \<Rightarrow> fact list \<Rightarrow> fact list" where
  "add t v src sc [] = [\<lparr>trait = t, fvalue = v, source = src, score = sc\<rparr>]"
| "add t v src sc (f # fs) =
     (if trait f = t \<and> fvalue f = v then f\<lparr>source := src, score := sc\<rparr> # fs
      else f # add t v src sc fs)"

type_synonym add_call = "string \<times> string \<times> string \<times> int"

fun add_call :: "fact list \<Rightarrow> add_call \<Rightarrow> fact list" where
  "add_call store (t, v, src, sc) = add t v src sc store"

definition add_all :: "add_call list \<Rightarrow> fact list \<Rightarrow> fact list" where
  "add_all calls store = foldl add_call store calls"

definition fact_key :: "fact \<Rightarrow> string \<times> string" where
  "fact_key f = (trait f, fvalue f)"

fun call_key :: "add_call \<Rightarrow> string \<times> string" where
  "call_key (t, v, src, sc) = (t, v)"

fun call_fact :: "add_call \<Rightarrow> fact" where
  "call_fact (t, v, src, sc) = \<lparr>trait = t, fvalue = v, source = src, score = sc\<rparr>"

definition first_occurrences :: "'a list \<Rightarrow> 'a list" where
  "first_occurrences xs = rev (remdups (rev xs))"

lemma remdups_snoc: "remdups (ys @ [k]) = filter (\<lambda>y. y \<noteq> k) (remdups ys) @ [k]"
  by (induction ys) auto

lemma first_occurrences_Cons:
  "first_occurrences (k # xs) = k # first_occurrences (filter (\<lambda>y. y \<noteq> k) xs)"
  by (simp add: first_occurrences_def remdups_snoc rev_filter remdups_filter)

lemma first_occurrences_Nil: "first_occurrences [] = []"
  by (simp add: first_occurrences_def)

lemma keys_add:
  "map fact_key (add t v src sc s) =
     (if (t, v) \<in> set (map fact_key s) then map fact_key s else map fact_key s @ [(t, v)])"
  by (induction s) (auto simp: fact_key_def)

lemma keys_add_all:
  "map fact_key (add_all calls s) =
     map fact_key s @
       first_occurrences (filter (\<lambda>k. k \<notin> set (map fact_key s)) (map call_key calls))"
proof (induction calls arbitrary: s)
  case Nil
  show ?case by (simp add: add_all_def first_occurrences_Nil)
next
  case (Cons c calls)
  obtain t v src sc where c: "c = (t, v, src, sc)" by (cases c)
  have step: "add_all (c # calls) s = add_all calls (add t v src sc s)"
    by (simp add: add_all_def c)
  show ?case
  proof (cases "(t, v) \<in> set (map fact_key s)")
    case True
    with Cons[of "add t v src sc s"] show ?thesis
      unfolding step by (simp add: keys_add c)
  next
    case False
    have f: "filter (\<lambda>y. y \<noteq> (t, v)) (filter (\<lambda>k. k \<notin> set (map fact_key s)) (map call_key calls))
        = filter (\<lambda>k. k \<notin> set (map fact_key s @ [(t, v)])) (map call_key calls)"
      by (auto intro: filter_cong)
    from False Cons[of "add t v src sc s"] show ?thesis
      unfolding step by (simp add: keys_add c first_occurrences_Cons conj_commute del: set_map)
  qed
qed

lemma add_preserves_others:
  "f \<in> set (add t v src sc s) \<Longrightarrow> fact_key f \<noteq> (t, v) \<Longrightarrow> f \<in> set s"
  by (induction s) (auto simp: fact_key_def split: if_splits)

lemma add_writes:
  "distinct (map fact_key s) \<Longrightarrow> f \<in> set (add t v src sc s) \<Longrightarrow> fact_key f = (t, v) \<Longrightarrow>
     f = \<lparr>trait = t, fvalue = v, source = src, score = sc\<rparr>"
proof (induction s)
  case Nil
  then show ?case by simp
next
  case (Cons g s)
  show ?case
  proof (cases "trait g = t \<and> fvalue g = v")
    case True
    with Cons.prems show ?thesis
      by (cases g) (force simp: fact_key_def)
  next
    case False
    with Cons show ?thesis by (auto simp: fact_key_def)
  qed
qed

lemma distinct_add: "distinct (map fact_key s) \<Longrightarrow> distinct (map fact_key (add t v src sc s))"
  by (simp add: keys_add del: set_map)

lemma distinct_add_all:
  "distinct (map fact_key s) \<Longrightarrow> distinct (map fact_key (add_all calls s))"
proof (induction calls arbitrary: s)
  case Nil
  then show ?case by (simp add: add_all_def)
next
  case (Cons c calls)
  obtain t v src sc where c: "c = (t, v, src, sc)" by (cases c)
  have step: "add_all (c # calls) s = add_all calls (add t v src sc s)"
    by (simp add: add_all_def c)
  from Cons.IH[OF distinct_add[OF Cons.prems]] show ?case unfolding step .
qed

lemma add_all_snoc: "add_all (calls @ [c]) s = add_call (add_all calls s) c"
  by (simp add: add_all_def)

lemma add_all_last_write:
  assumes "distinct (map fact_key s)"
  shows "f \<in> set (add_all calls s) \<Longrightarrow>
     (if filter (\<lambda>c. call_key c = fact_key f) calls = [] then f \<in> set s
      else f = call_fact (last (filter (\<lambda>c. call_key c = fact_key f) calls)))"
proof (induction calls arbitrary: f rule: rev_induct)
  case Nil
  then show ?case by (simp add: add_all_def)
next
  case (snoc c calls)
  obtain t v src sc where c: "c = (t, v, src, sc)" by (cases c)
  from snoc.prems have m: "f \<in> set (add t v src sc (add_all calls s))"
    by (simp add: add_all_snoc c)
  show ?case
  proof (cases "fact_key f = (t, v)")
    case True
    from add_writes[OF distinct_add_all[OF assms] m True] True show ?thesis
      by (simp add: c)
  next
    case False
    from add_preserves_others[OF m False] have "f \<in> set (add_all calls s)" .
    from snoc.IH[OF this] False show ?thesis by (auto simp: c)
  qed
qed

text \<open>
  C2. After any sequence of \<open>add\<close> calls on an empty store, the keys of the store are
  distinct, they are the keys of the calls in the order of their first occurrence, and
  every entry carries the source and score of the last call with its key.
\<close>

theorem fact_store_dedup:
  "distinct (map fact_key (add_all calls [])) \<and>
   map fact_key (add_all calls []) = first_occurrences (map call_key calls) \<and>
   (\<forall>f \<in> set (add_all calls []).
      f = call_fact (last (filter (\<lambda>c. call_key c = fact_key f) calls)))"
proof -
  have 1: "distinct (map fact_key (add_all calls []))"
    by (rule distinct_add_all) simp
  have 2: "map fact_key (add_all calls []) = first_occurrences (map call_key calls)"
    using keys_add_all[of calls "[]"] by simp
  have 3: "\<forall>f \<in> set (add_all calls []).
      f = call_fact (last (filter (\<lambda>c. call_key c = fact_key f) calls))"
  proof
    fix f assume f: "f \<in> set (add_all calls [])"
    have "distinct (map fact_key ([] :: fact list))" by simp
    from add_all_last_write[OF this f] show
      "f = call_fact (last (filter (\<lambda>c. call_key c = fact_key f) calls))"
      by (simp split: if_splits)
  qed
  from 1 2 3 show ?thesis by blast
qed

definition example_calls :: "add_call list" where
  "example_calls =
     [(''host.user'', ''alice'', ''seed'', 1), (''host.name'', ''srv1'', ''link-1'', 2),
      (''host.user'', ''alice'', ''link-2'', 5), (''host.user'', ''bob'', ''link-2'', 1)]"

theorem fact_store_dedup_witness:
  "\<lparr>trait = ''host.user'', fvalue = ''alice'', source = ''link-2'', score = 5\<rparr>
     \<in> set (add_all example_calls []) \<and>
   call_fact (last (filter (\<lambda>c. call_key c = (''host.user'', ''alice'')) example_calls)) =
     \<lparr>trait = ''host.user'', fvalue = ''alice'', source = ''link-2'', score = 5\<rparr> \<and>
   distinct (map fact_key (add_all example_calls [])) \<and>
   map fact_key (add_all example_calls []) =
     [(''host.user'', ''alice''), (''host.name'', ''srv1''), (''host.user'', ''bob'')]"
proof -
  have e: "add_all example_calls [] =
     [\<lparr>trait = ''host.user'', fvalue = ''alice'', source = ''link-2'', score = 5\<rparr>,
      \<lparr>trait = ''host.name'', fvalue = ''srv1'', source = ''link-1'', score = 2\<rparr>,
      \<lparr>trait = ''host.user'', fvalue = ''bob'', source = ''link-2'', score = 1\<rparr>]"
    by code_simp
  have k: "first_occurrences (map call_key example_calls) =
     [(''host.user'', ''alice''), (''host.name'', ''srv1''), (''host.user'', ''bob'')]"
    by code_simp
  have l: "call_fact (last (filter (\<lambda>c. call_key c = (''host.user'', ''alice'')) example_calls)) =
     \<lparr>trait = ''host.user'', fvalue = ''alice'', source = ''link-2'', score = 5\<rparr>"
    by code_simp
  from fact_store_dedup[of example_calls] e k l show ?thesis by simp
qed

subsection \<open>Links and results\<close>

text \<open>
  Modelled from the spec: the Link pipeline, the Operation and the Ability Catalog are
  not under \<^verbatim>\<open>src/\<close>. A Link has a status among queued, collected, executing, success,
  failed, discarded, of which the last three are terminal. \<open>submit_result(link-id, status,
  output)\<close>: if the Link is unknown or already terminal the call is rejected and nothing
  changes; otherwise the output is decoded by the parser of the Link's Ability into
  zero or more Facts with \<open>source = link-id\<close>, which are added to the Fact Store of the
  Operation that owns the Link, and the Link gets its terminal status from the exit
  status. A parse failure gives zero facts.
\<close>

datatype link_status = Queued | Collected | Executing | Success | Failed | Discarded

fun terminal :: "link_status \<Rightarrow> bool" where
  "terminal Success = True"
| "terminal Failed = True"
| "terminal Discarded = True"
| "terminal st = False"

record link =
  link_id :: string
  ability_id :: string
  paw :: string
  rendered_command :: string
  status :: link_status
  decide_time :: nat
  collect_time :: "nat option"
  link_output :: string
  parsed_facts :: "(string \<times> string \<times> int) list"

datatype op_state = Running | Paused | Finished | Cleanup | Out_of_time

record operation =
  op_id :: string
  op_name :: string
  objective :: "string list"
  profile :: "string list"
  group_filter :: string
  state :: op_state
  links :: "link list"
  facts :: "fact list"
  start_time :: nat
  autonomous :: bool

record ability =
  ability_tactic :: string
  ability_technique :: string
  executors :: "string \<rightharpoonup> string"
  required_traits :: "string list"
  produced_traits :: "string list"
  timeout :: nat
  parser :: "string \<Rightarrow> (string \<times> string \<times> int) list option"

type_synonym catalog = "string \<rightharpoonup> ability"

datatype ack = Accepted | Rejected

definition find_link :: "string \<Rightarrow> link list \<Rightarrow> link option" where
  "find_link lid ls = find (\<lambda>l. link_id l = lid) ls"

fun replace_link :: "link \<Rightarrow> link list \<Rightarrow> link list" where
  "replace_link l' [] = []"
| "replace_link l' (l # ls) = (if link_id l = link_id l' then l' # ls else l # replace_link l' ls)"

definition terminal_status :: "int \<Rightarrow> link_status" where
  "terminal_status exit_status = (if exit_status = 0 then Success else Failed)"

definition decode :: "catalog \<Rightarrow> link \<Rightarrow> string \<Rightarrow> (string \<times> string \<times> int) list" where
  "decode cat l out =
     (case cat (ability_id l) of
        None \<Rightarrow> []
      | Some ab \<Rightarrow> (case parser ab out of None \<Rightarrow> [] | Some found \<Rightarrow> found))"

definition record_result :: "catalog \<Rightarrow> link \<Rightarrow> int \<Rightarrow> string \<Rightarrow> operation \<Rightarrow> operation" where
  "record_result cat l exit_status out op =
     (let found = decode cat l out;
          l' = l\<lparr>status := terminal_status exit_status, link_output := out, parsed_facts := found\<rparr>
      in op\<lparr>links := replace_link l' (links op),
            facts := add_all (map (\<lambda>(t, v, sc). (t, v, link_id l, sc)) found) (facts op)\<rparr>)"

text \<open>
  Modelled from the spec: \<open>submit_result(link-id, status, output)\<close> (section 4.6), absent
  from \<^verbatim>\<open>src/\<close>: "if the Link is unknown or already terminal, the call is rejected/ignored
  (idempotent no-op); otherwise decode output via the Ability's parser spec, extract zero
  or more Facts tagged with source = link-id, append them to the Fact Store, and set the
  Link's terminal status from status". The Operations are searched in order for the one
  that owns the Link.
\<close>

fun submit_result ::
  "catalog \<Rightarrow> string \<Rightarrow> int \<Rightarrow> string \<Rightarrow> operation list \<Rightarrow> ack \<times> operation list" where
  "submit_result cat lid exit_status out [] = (Rejected, [])"
| "submit_result cat lid exit_status out (op # ops) =
     (case find_link lid (links op) of
        None \<Rightarrow>
          (case submit_result cat lid exit_status out ops of (a, ops') \<Rightarrow> (a, op # ops'))
      | Some l \<Rightarrow>
          if terminal (status l) then (Rejected, op # ops)
          else (Accepted, record_result cat l exit_status out op # ops))"

fun lookup_link :: "string \<Rightarrow> operation list \<Rightarrow> link option" where
  "lookup_link lid [] = None"
| "lookup_link lid (op # ops) =
     (case find_link lid (links op) of None \<Rightarrow> lookup_link lid ops | Some l \<Rightarrow> Some l)"

definition unknown_or_terminal :: "string \<Rightarrow> operation list \<Rightarrow> bool" where
  "unknown_or_terminal lid ops =
     (case lookup_link lid ops of None \<Rightarrow> True | Some l \<Rightarrow> terminal (status l))"

lemma submit_result_rejected:
  "unknown_or_terminal lid ops \<Longrightarrow> submit_result cat lid exit_status out ops = (Rejected, ops)"
  by (induction ops) (auto simp: unknown_or_terminal_def split: option.splits)

lemma find_replace_link:
  "find_link lid ls = Some l \<Longrightarrow> link_id l' = lid \<Longrightarrow> find_link lid (replace_link l' ls) = Some l'"
  by (induction ls) (auto simp: find_link_def split: if_splits)

lemma terminal_terminal_status: "terminal (terminal_status exit_status)"
  by (simp add: terminal_status_def)

lemma find_link_id: "find_link lid ls = Some l \<Longrightarrow> link_id l = lid"
  by (induction ls) (auto simp: find_link_def split: if_splits)

lemma submit_result_settles:
  "unknown_or_terminal lid (snd (submit_result cat lid exit_status out ops))"
proof (induction ops)
  case Nil
  show ?case by (simp add: unknown_or_terminal_def)
next
  case (Cons op ops)
  show ?case
  proof (cases "find_link lid (links op)")
    case None
    with Cons show ?thesis
      by (auto simp: unknown_or_terminal_def split: prod.splits option.splits)
  next
    case (Some l)
    show ?thesis
    proof (cases "terminal (status l)")
      case True
      with Some show ?thesis by (simp add: unknown_or_terminal_def)
    next
      case False
      define l' where "l' = l\<lparr>status := terminal_status exit_status, link_output := out,
        parsed_facts := decode cat l out\<rparr>"
      have "link_id l' = lid" using find_link_id[OF Some] by (simp add: l'_def)
      from find_replace_link[OF Some this]
      have "find_link lid (links (record_result cat l exit_status out op)) = Some l'"
        by (simp add: record_result_def Let_def l'_def)
      with Some False show ?thesis
        by (simp add: unknown_or_terminal_def l'_def terminal_terminal_status)
    qed
  qed
qed

text \<open>
  C3. A result submitted for a Link that is unknown or already terminal is rejected and
  leaves every Operation as it was: its Fact Store, its Links and their status, its
  state. After any submission the Link is unknown or terminal, so a second identical
  submission is rejected and changes nothing.
\<close>

theorem submit_result_idempotent:
  "(unknown_or_terminal lid ops \<longrightarrow>
      submit_result cat lid exit_status out ops = (Rejected, ops)) \<and>
   submit_result cat lid exit_status out (snd (submit_result cat lid exit_status out ops)) =
     (Rejected, snd (submit_result cat lid exit_status out ops))"
proof -
  have "unknown_or_terminal lid (snd (submit_result cat lid exit_status out ops))"
    by (rule submit_result_settles)
  then have "submit_result cat lid exit_status out (snd (submit_result cat lid exit_status out ops)) =
     (Rejected, snd (submit_result cat lid exit_status out ops))"
    by (rule submit_result_rejected)
  then show ?thesis
    using submit_result_rejected[of lid ops cat exit_status out] by simp
qed

definition example_catalog :: catalog where
  "example_catalog =
     [''whoami'' \<mapsto> \<lparr>ability_tactic = ''discovery'', ability_technique = ''T1033'', executors = Map.empty,
        required_traits = [], produced_traits = [''host.user''], timeout = 60,
        parser = (\<lambda>out. if out = [] then None else Some [(''host.user'', out, 1)])\<rparr>]"

definition example_link :: link where
  "example_link =
     \<lparr>link_id = ''link-1'', ability_id = ''whoami'', paw = ''paw-1'', rendered_command = ''whoami'',
      status = Collected, decide_time = 10, collect_time = Some 12, link_output = [],
      parsed_facts = []\<rparr>"

definition example_operation :: operation where
  "example_operation =
     \<lparr>op_id = ''op-1'', op_name = ''demo'', objective = [], profile = [''whoami''],
      group_filter = ''red'', state = Running, links = [example_link], facts = [],
      start_time = 0, autonomous = True\<rparr>"

definition settled_operation :: operation where
  "settled_operation =
     example_operation\<lparr>
       links := [example_link\<lparr>status := Success, link_output := ''alice'',
                   parsed_facts := [(''host.user'', ''alice'', 1)]\<rparr>],
       facts := [\<lparr>trait = ''host.user'', fvalue = ''alice'', source = ''link-1'', score = 1\<rparr>]\<rparr>"

lemma example_first_submission:
  "submit_result example_catalog ''link-1'' 0 ''alice'' [example_operation] =
     (Accepted, [settled_operation])"
  by code_simp

lemma example_settled: "unknown_or_terminal ''link-1'' [settled_operation]"
  by code_simp

lemma example_unknown: "unknown_or_terminal ''link-9'' [example_operation]"
  by code_simp

theorem submit_result_idempotent_witness:
  "unknown_or_terminal ''link-1'' [settled_operation] \<and>
   submit_result example_catalog ''link-1'' 0 ''alice'' [settled_operation] =
     (Rejected, [settled_operation]) \<and>
   unknown_or_terminal ''link-9'' [example_operation] \<and>
   submit_result example_catalog ''link-9'' 0 ''alice'' [example_operation] =
     (Rejected, [example_operation]) \<and>
   submit_result example_catalog ''link-1'' 0 ''alice''
       (snd (submit_result example_catalog ''link-1'' 0 ''alice'' [example_operation])) =
     (Rejected, [settled_operation])"
  using submit_result_idempotent[of "''link-1''" "[settled_operation]" example_catalog 0 "''alice''"]
    submit_result_idempotent[of "''link-9''" "[example_operation]" example_catalog 0 "''alice''"]
    submit_result_idempotent[of "''link-1''" "[example_operation]" example_catalog 0 "''alice''"]
    example_first_submission example_settled example_unknown
  by simp

subsection \<open>The Scheduler\<close>

text \<open>
  Modelled from the spec: the Scheduler is not under \<^verbatim>\<open>src/\<close> (\<^verbatim>\<open>server.py\<close> only starts
  \<^verbatim>\<open>app_svc.run_scheduler\<close>). A Schedule is \<open>(id, operation template, cadence,
  next-fire-time)\<close>, persisted and loaded at startup; an entry that fails to load is skipped
  with a warning. At a tick, a Schedule whose next-fire-time has come creates one
  Operation and is rescheduled to \<open>now + cadence\<close>. Times are in seconds.
\<close>

record schedule =
  sched_id :: string
  op_template :: string
  cadence :: nat
  next_fire :: nat

definition due :: "nat \<Rightarrow> schedule \<Rightarrow> bool" where
  "due now s = (next_fire s \<le> now)"

definition new_operation :: "schedule \<Rightarrow> nat \<Rightarrow> operation" where
  "new_operation s now =
     \<lparr>op_id = sched_id s, op_name = op_template s, objective = [], profile = [],
      group_filter = [], state = Running, links = [], facts = [], start_time = now,
      autonomous = True\<rparr>"

text \<open>
  Modelled from the spec: the Scheduler's tick (sections 3, 6 and 8), absent from
  \<^verbatim>\<open>src/\<close>: a Schedule whose next-fire-time is already past "is treated as due exactly once
  before being rescheduled forward"; after the tick its next-fire-time is \<open>now + cadence\<close>.
\<close>

fun tick :: "nat \<Rightarrow> schedule list \<Rightarrow> schedule list \<times> operation list" where
  "tick now [] = ([], [])"
| "tick now (s # ss) =
     (case tick now ss of (ss', created) \<Rightarrow>
        if due now s then (s\<lparr>next_fire := now + cadence s\<rparr> # ss', new_operation s now # created)
        else (s # ss', created))"

text \<open>
  Modelled from the spec: the loading of the persisted Schedules at startup (section 7),
  absent from \<^verbatim>\<open>src/\<close>: an entry that fails to load is "skipped with a warning; other
  schedules proceed". The second component lists the skipped entries.
\<close>

fun load_schedules :: "('r \<Rightarrow> schedule option) \<Rightarrow> 'r list \<Rightarrow> schedule list \<times> 'r list" where
  "load_schedules load [] = ([], [])"
| "load_schedules load (r # rs) =
     (case load_schedules load rs of (ss, skipped) \<Rightarrow>
        (case load r of None \<Rightarrow> (ss, r # skipped) | Some s \<Rightarrow> (s # ss, skipped)))"

lemma load_schedules_loaded: "fst (load_schedules load raws) = List.map_filter load raws"
  by (induction raws) (auto simp: List.map_filter_simps split: prod.splits option.splits)

lemma load_schedules_skipped: "snd (load_schedules load raws) = filter (\<lambda>r. load r = None) raws"
  by (induction raws) (auto split: prod.splits option.splits)

lemma tick_created:
  "snd (tick now ss) = map (\<lambda>s. new_operation s now) (filter (due now) ss)"
  by (induction ss) (auto split: prod.splits)

lemma tick_rescheduled:
  "fst (tick now ss) = map (\<lambda>s. if due now s then s\<lparr>next_fire := now + cadence s\<rparr> else s) ss"
  by (induction ss) (auto split: prod.splits)

lemma tick_not_due:
  "\<forall>s \<in> set ss. 0 < cadence s \<Longrightarrow> now \<le> now' \<Longrightarrow> \<forall>s \<in> set ss. now' < now + cadence s \<Longrightarrow>
     \<forall>s \<in> set ss. due now s \<Longrightarrow> filter (due now') (fst (tick now ss)) = []"
  by (induction ss) (auto simp: due_def split: prod.splits)

text \<open>
  C4. One tick creates one Operation for each Schedule whose next-fire-time is not later
  than now, however many cadence intervals it is late, and sets its next-fire-time to
  \<open>now + cadence\<close>; the same holds for the Schedules loaded at startup. With a positive
  cadence the new next-fire-time is later than now, and a further tick before it creates
  nothing for that Schedule.
\<close>

theorem schedule_fires_once:
  "snd (tick now ss) = map (\<lambda>s. new_operation s now) (filter (\<lambda>s. next_fire s \<le> now) ss) \<and>
   fst (tick now ss) =
     map (\<lambda>s. if next_fire s \<le> now then s\<lparr>next_fire := now + cadence s\<rparr> else s) ss \<and>
   snd (tick now (fst (load_schedules load raws))) =
     map (\<lambda>s. new_operation s now) (filter (\<lambda>s. next_fire s \<le> now) (List.map_filter load raws)) \<and>
   (next_fire s \<le> now \<longrightarrow>
      tick now [s] = ([s\<lparr>next_fire := now + cadence s\<rparr>], [new_operation s now]) \<and>
      (0 < cadence s \<longrightarrow>
         now < next_fire (hd (fst (tick now [s]))) \<and>
         (now \<le> now' \<and> now' < now + cadence s \<longrightarrow>
            snd (tick now' (fst (tick now [s]))) = [])))"
  using tick_created[of now ss] tick_rescheduled[of now ss]
    tick_created[of now "fst (load_schedules load raws)"]
  by (auto simp: due_def[abs_def] load_schedules_loaded)

definition hourly :: schedule where
  "hourly = \<lparr>sched_id = ''nightly'', op_template = ''recon'', cadence = 3600, next_fire = 1000\<rparr>"

theorem schedule_fires_once_witness:
  "next_fire hourly \<le> 1000 + 3 * 3600 \<and> 0 < cadence hourly \<and>
   tick (1000 + 3 * 3600) [hourly] =
     ([hourly\<lparr>next_fire := 1000 + 3 * 3600 + 3600\<rparr>], [new_operation hourly (1000 + 3 * 3600)]) \<and>
   length (snd (tick (1000 + 3 * 3600) [hourly])) = 1 \<and>
   snd (tick (1000 + 3 * 3600 + 60) (fst (tick (1000 + 3 * 3600) [hourly]))) = []"
proof -
  have 1: "next_fire hourly \<le> 1000 + 3 * 3600" by (simp add: hourly_def)
  have 2: "0 < cadence hourly" by (simp add: hourly_def)
  have 3: "cadence hourly = 3600" by (simp add: hourly_def)
  from schedule_fires_once[of "1000 + 3 * 3600" "[hourly]" Some "[hourly]" hourly "1000 + 3 * 3600 + 60"] 1 2 3
  show ?thesis
    by (elim conjE impE) (simp_all del: tick.simps)
qed

subsection \<open>The other error paths of the engine\<close>

text \<open>
  Modelled from the spec: dispatch (section 7), absent from \<^verbatim>\<open>src/\<close>. When the command of a
  chosen (ability, agent) pair fails to render, "Link marked failed, no fact mutation,
  Operation continues"; otherwise the Link is queued.
\<close>

definition dispatch :: "string option \<Rightarrow> link \<Rightarrow> operation \<Rightarrow> operation" where
  "dispatch rendered l op =
     (case rendered of
        None \<Rightarrow> op\<lparr>links := links op @ [l\<lparr>status := Failed\<rparr>]\<rparr>
      | Some cmd \<Rightarrow> op\<lparr>links := links op @ [l\<lparr>rendered_command := cmd, status := Queued\<rparr>]\<rparr>)"

text \<open>
  Modelled from the spec: the timeout sweep (section 4.6), absent from \<^verbatim>\<open>src/\<close>: "a Link not
  collected within beacon-interval x N, or collected but not resulted within the
  Ability's timeout, is unilaterally transitioned to discarded". \<open>window\<close> is
  beacon-interval x N. A Link that is collected and has no result yet has status
  collected or executing. The specification gives every collected Link a collect-time
  and every Link an Ability of the catalog; for a Link without them the sweep counts
  from the decide-time and waits for no timeout, so that no Link can block for ever.
\<close>

definition collected_at :: "link \<Rightarrow> nat" where
  "collected_at l = (case collect_time l of None \<Rightarrow> decide_time l | Some c \<Rightarrow> c)"

definition ability_timeout :: "catalog \<Rightarrow> link \<Rightarrow> nat" where
  "ability_timeout cat l = (case cat (ability_id l) of None \<Rightarrow> 0 | Some ab \<Rightarrow> timeout ab)"

definition timed_out :: "catalog \<Rightarrow> nat \<Rightarrow> nat \<Rightarrow> link \<Rightarrow> bool" where
  "timed_out cat window now l =
     (case status l of
        Queued \<Rightarrow> decide_time l + window < now
      | Collected \<Rightarrow> collected_at l + ability_timeout cat l < now
      | Executing \<Rightarrow> collected_at l + ability_timeout cat l < now
      | Success \<Rightarrow> False
      | Failed \<Rightarrow> False
      | Discarded \<Rightarrow> False)"

definition timeout_sweep :: "catalog \<Rightarrow> nat \<Rightarrow> nat \<Rightarrow> operation \<Rightarrow> operation" where
  "timeout_sweep cat window now op =
     op\<lparr>links := map (\<lambda>l. if timed_out cat window now l then l\<lparr>status := Discarded\<rparr> else l)
                     (links op)\<rparr>"

text \<open>
  Modelled from the spec: the events of the pipeline in which the error paths of section
  7 occur, and what each does to the Operations: a dispatch into one Operation, with
  the rendered command or without it when rendering fails; a result submission; a
  timeout sweep at a given time. \<open>run\<close> processes a sequence of events in order.
\<close>

datatype engine_event =
    Dispatched string "string option" link
  | Result_submitted string int string
  | Swept nat

fun step :: "catalog \<Rightarrow> nat \<Rightarrow> operation list \<Rightarrow> engine_event \<Rightarrow> operation list" where
  "step cat window ops (Dispatched oid rendered l) =
     map (\<lambda>op. if op_id op = oid then dispatch rendered l op else op) ops"
| "step cat window ops (Result_submitted lid exit_status out) =
     snd (submit_result cat lid exit_status out ops)"
| "step cat window ops (Swept now) = map (timeout_sweep cat window now) ops"




















































end
